theory Spec2Isabelle
  imports Main "HOL-Library.Multiset" "HOL-Library.Sublist" "HOL-Library.Word"
begin

section \<open>Common data model\<close>

text \<open>
  Python exceptions raised by the modelled functions are values of \<open>error\<close>; a function
  that may raise returns \<open>error + 'a\<close> with \<open>Inl\<close> for the exception.
\<close>

datatype error =
  ValueError | KeyError | IndexError | AssertionError | AttributeError
  | NotImplementedError | TypeError

text \<open>
  \<open>NodeType = str\<close> and \<open>EdgeType = Tuple[str, str, str]\<close> (source, relation,
  destination). \<open>key[0]\<close> is the first component and \<open>key[-1]\<close> the last one.
\<close>

type_synonym NodeType = string
type_synonym EdgeType = "string \<times> string \<times> string"

definition et_first :: "EdgeType \<Rightarrow> NodeType" where
  "et_first key = fst key"

definition et_last :: "EdgeType \<Rightarrow> NodeType" where
  "et_last key = snd (snd key)"

text \<open>
  A comprehension or loop whose body may raise: the elements are processed in order and
  the first exception ends the whole computation.
\<close>

fun map_result :: "('a \<Rightarrow> error + 'b) \<Rightarrow> 'a list \<Rightarrow> error + 'b list" where
  "map_result f [] = Inr []"
| "map_result f (x # xs) =
     (case f x of
        Inl e \<Rightarrow> Inl e
      | Inr y \<Rightarrow> (case map_result f xs of Inl e \<Rightarrow> Inl e | Inr ys \<Rightarrow> Inr (y # ys)))"

section \<open>utils/hetero.py: check_add_self_loops\<close>

text \<open>
  A layer, as far as \<open>check_add_self_loops\<close> looks at it: the attribute
  \<open>add_self_loops\<close>, which may be absent (\<open>None\<close>), so that
  \<open>getattr(module, 'add_self_loops', False)\<close> is \<open>False\<close> when it is absent.
\<close>

record layer =
  add_self_loops :: "bool option"

definition getattr_add_self_loops :: "'a layer_scheme \<Rightarrow> bool" where
  "getattr_add_self_loops module = (case add_self_loops module of None \<Rightarrow> False | Some b \<Rightarrow> b)"

definition check_add_self_loops :: "'a layer_scheme \<Rightarrow> EdgeType list \<Rightarrow> error + unit" where
  "check_add_self_loops module edge_types =
     (let is_bipartite = list_ex (\<lambda>key. et_first key \<noteq> et_last key) edge_types
      in if is_bipartite \<and> getattr_add_self_loops module then Inl ValueError else Inr ())"

section \<open>nn/conv/hetero_conv.py: the constructor's checks\<close>

text \<open>
  \<open>HeteroConv.__init__\<close> runs \<open>check_add_self_loops(module, [edge_type])\<close> for every
  item of \<open>convs\<close>, in the dictionary's order, and stops at the first exception; the
  warning it may print afterwards has no effect on the result.
\<close>

fun init_checks :: "(EdgeType \<times> 'a layer_scheme) list \<Rightarrow> error + unit" where
  "init_checks [] = Inr ()"
| "init_checks ((edge_type, module) # rest) =
     (case check_add_self_loops module [edge_type] of
        Inl e \<Rightarrow> Inl e
      | Inr _ \<Rightarrow> init_checks rest)"

record 'a HeteroConv =
  convs :: "(EdgeType \<times> 'a) list"
  aggr :: "string option"

definition HeteroConv_init ::
  "(EdgeType \<times> 'a layer_scheme) list \<Rightarrow> string option \<Rightarrow> error + ('a layer_scheme) HeteroConv" where
  "HeteroConv_init cs a =
     (case init_checks cs of
        Inl e \<Rightarrow> Inl e
      | Inr _ \<Rightarrow> Inr \<lparr>convs = cs, aggr = a\<rparr>)"

section \<open>nn/parameter_dict.py: ParameterDict\<close>

text \<open>
  \<open>Key = Union[str, Tuple[str, ...]]\<close>. Strings are lists of bytes; every character the
  functions test (\<open>.\<close>, \<open>#\<close>, \<open><\<close>, \<open>>\<close>, \<open>_\<close>) is ASCII, so the tests agree with
  Python's on code points.
\<close>

datatype key = Str string | Tup "string list"

text \<open>\<open>s.replace(old, new)\<close> for one-character \<open>old\<close> and \<open>new\<close>.\<close>

definition str_replace :: "char \<Rightarrow> char \<Rightarrow> string \<Rightarrow> string" where
  "str_replace old new s = map (\<lambda>c. if c = old then new else c) s"

text \<open>\<open>sep.join(xs)\<close>.\<close>

fun join :: "string \<Rightarrow> string list \<Rightarrow> string" where
  "join sep [] = []"
| "join sep [x] = x"
| "join sep (x # y # ys) = x @ sep @ join sep (y # ys)"

text \<open>
  \<open>s.split(sep)\<close>: the string is scanned from the left, every leftmost occurrence of
  \<open>sep\<close> ends the current piece and the scan goes on behind it; an empty separator
  raises \<open>ValueError\<close>. \<open>split_from sep cur s\<close> carries the piece read so far.
\<close>

fun split_from :: "string \<Rightarrow> string \<Rightarrow> string \<Rightarrow> string list" where
  "split_from sep cur [] = [cur]"
| "split_from sep cur (c # cs) =
     (if sep \<noteq> [] \<and> prefix sep (c # cs)
      then cur # split_from sep [] (drop (length sep - 1) cs)
      else split_from sep (cur @ [c]) cs)"

definition split :: "string \<Rightarrow> string \<Rightarrow> error + string list" where
  "split sep s = (if sep = [] then Inl ValueError else Inr (split_from sep [] s))"

text \<open>\<open>sub in s\<close> on strings.\<close>

fun contains :: "string \<Rightarrow> string \<Rightarrow> bool" where
  "contains sub [] = (sub = [])"
| "contains sub (c # cs) = (prefix sub (c # cs) \<or> contains sub cs)"

text \<open>\<open>key[1:-1]\<close>; slicing never raises.\<close>

definition slice_1_m1 :: "string \<Rightarrow> string" where
  "slice_1_m1 s = butlast (tl s)"

text \<open>
  \<open>CLASS_ATTRS = set(dir(paddle.nn.LayerDict))\<close> is a constant of the framework; the
  functions take it as a parameter. \<open>assert len(key) > 1\<close> is the \<open>AssertionError\<close>
  branch.
\<close>

definition to_internal_key :: "string set \<Rightarrow> key \<Rightarrow> error + string" where
  "to_internal_key CLASS_ATTRS key =
     (case (case key of
              Tup ks \<Rightarrow> if length ks > 1 then Inr (''<'' @ join ''___'' ks @ ''>'')
                        else Inl AssertionError
            | Str s \<Rightarrow> Inr s) of
        Inl e \<Rightarrow> Inl e
      | Inr k \<Rightarrow>
          (let k' = (if k \<in> CLASS_ATTRS then ''<'' @ k @ ''>'' else k)
           in Inr (str_replace CHR ''.'' CHR ''#'' k')))"

text \<open>
  \<open>key[0]\<close> raises \<open>IndexError\<close> on the empty string; it is evaluated first in both
  conditions, \<open>key[-1]\<close> only on a non-empty string.
\<close>

definition to_external_key :: "string set \<Rightarrow> string \<Rightarrow> error + key" where
  "to_external_key CLASS_ATTRS key0 =
     (let key = str_replace CHR ''#'' CHR ''.'' key0 in
      if key = [] then Inl IndexError
      else
        (let key = (if hd key = CHR ''<'' \<and> last key = CHR ''>'' \<and> slice_1_m1 key \<in> CLASS_ATTRS
                    then slice_1_m1 key else key) in
         if key = [] then Inl IndexError
         else if hd key = CHR ''<'' \<and> last key = CHR ''>'' \<and> contains ''___'' key
         then (case split ''___'' (slice_1_m1 key) of
                 Inl e \<Rightarrow> Inl e
               | Inr ps \<Rightarrow> Inr (Tup ps))
         else Inr (Str key)))"


text \<open>
  What is handed to the dictionary as a value: a layer, a parameter (a tensor) or
  \<open>None\<close>.
\<close>

datatype ('l, 'p) stored = Layer 'l | Parameter 'p | NoneValue

text \<open>
  The base class \<open>paddle.nn.LayerDict\<close> keeps an ordered dictionary from internal keys to
  values: an association list in insertion order, where storing under an existing key
  replaces the value in place (\<open>odict_set\<close>). Its \<open>__setitem__\<close> is \<open>add_sublayer\<close>, which
  asserts \<open>isinstance(sublayer, Layer) or sublayer is None\<close> before it stores.
\<close>

type_synonym ('l, 'p) LayerDict = "(string \<times> ('l, 'p) stored) list"

fun odict_set :: "(string \<times> 'v) list \<Rightarrow> string \<Rightarrow> 'v \<Rightarrow> (string \<times> 'v) list" where
  "odict_set [] k v = [(k, v)]"
| "odict_set ((k', v') # rest) k v =
     (if k' = k then (k, v) # rest else (k', v') # odict_set rest k v)"

definition LayerDict_setitem ::
  "('l, 'p) LayerDict \<Rightarrow> string \<Rightarrow> ('l, 'p) stored \<Rightarrow> error + ('l, 'p) LayerDict" where
  "LayerDict_setitem d k sublayer =
     (case sublayer of
        Parameter _ \<Rightarrow> Inl AssertionError
      | _ \<Rightarrow> Inr (odict_set d k sublayer))"

definition ParameterDict_setitem ::
  "string set \<Rightarrow> ('l, 'p) LayerDict \<Rightarrow> key \<Rightarrow> ('l, 'p) stored \<Rightarrow> error + ('l, 'p) LayerDict" where
  "ParameterDict_setitem CLASS_ATTRS d key parameter =
     (case to_internal_key CLASS_ATTRS key of
        Inl e \<Rightarrow> Inl e
      | Inr k \<Rightarrow> LayerDict_setitem d k parameter)"

definition ParameterDict_keys :: "string set \<Rightarrow> ('l, 'p) LayerDict \<Rightarrow> error + key list" where
  "ParameterDict_keys CLASS_ATTRS d = map_result (to_external_key CLASS_ATTRS) (map fst d)"

definition ParameterDict_items ::
  "string set \<Rightarrow> ('l, 'p) LayerDict \<Rightarrow> error + (key \<times> ('l, 'p) stored) list" where
  "ParameterDict_items CLASS_ATTRS d =
     map_result (\<lambda>(k, v). case to_external_key CLASS_ATTRS k of
                                Inl e \<Rightarrow> Inl e
                              | Inr k' \<Rightarrow> Inr (k', v)) d"

text \<open>
  What the round trip needs of the framework's attribute names: none contains \<open><\<close> or
  three underscores in a row.
\<close>

definition attrs_ok :: "string set \<Rightarrow> bool" where
  "attrs_ok CLASS_ATTRS = (\<forall>a \<in> CLASS_ATTRS. CHR ''<'' \<notin> set a \<and> \<not> contains ''___'' a)"

text \<open>
  The keys for which the round trip is shown: non-empty strings without \<open>#\<close> that are not
  of the form \<open><...>\<close>, and tuples of at least two components, none containing \<open>.\<close>,
  \<open>#\<close> or \<open>___\<close>, where only the last component may end with an underscore.
\<close>

definition roundtrip_key :: "key \<Rightarrow> bool" where
  "roundtrip_key key =
     (case key of
        Str s \<Rightarrow> s \<noteq> [] \<and> CHR ''#'' \<notin> set s \<and> \<not> (hd s = CHR ''<'' \<and> last s = CHR ''>'')
      | Tup ks \<Rightarrow>
          2 \<le> length ks
          \<and> (\<forall>c \<in> set ks. CHR ''.'' \<notin> set c \<and> CHR ''#'' \<notin> set c \<and> \<not> contains ''___'' c)
          \<and> (\<forall>c \<in> set (butlast ks). c = [] \<or> last c \<noteq> CHR ''_''))"

text \<open>Some attribute names of \<open>LayerDict\<close>, for concrete evaluations.\<close>

definition example_attrs :: "string set" where
  "example_attrs = {''keys'', ''items'', ''values'', ''update'', ''pop'', ''clear'', ''forward''}"

section \<open>utils/hetero.py: construct_bipartite_edge_index\<close>

text \<open>
  Tensors are objects: the dictionaries hold references, \<open>clone\<close> makes a new object and
  \<open>+=\<close> changes an object in place. The store keeps the tensors by address; an address
  is an index into the list of cells, and a new object is appended. A reference held by a
  Python object is never dangling, so the properties below assume the addresses of the
  inputs are allocated.

  An edge index of shape \<open>[2, E]\<close> is the list of its \<open>E\<close> columns, each a pair (entry of
  row 0, entry of row 1). The integer type \<open>'i\<close> is the tensor's element type (for example
  \<open>64 word\<close> for \<open>int64\<close>, where \<open>+\<close> wraps around). An attribute tensor of shape
  \<open>[n, F]\<close> is \<open>Attr F rows\<close> with \<open>n\<close> rows.
\<close>

type_synonym addr = nat
type_synonym 'i edge_index = "('i \<times> 'i) list"

datatype 'a attr = Attr (width: nat) (rows: "'a list list")

record ('i, 'a) store =
  idx_cells :: "'i edge_index list"
  attr_cells :: "'a attr list"

definition alloc_idx :: "('i, 'a) store \<Rightarrow> 'i edge_index \<Rightarrow> ('i, 'a) store \<times> addr" where
  "alloc_idx h t = (h\<lparr>idx_cells := idx_cells h @ [t]\<rparr>, length (idx_cells h))"

definition alloc_attr :: "('i, 'a) store \<Rightarrow> 'a attr \<Rightarrow> ('i, 'a) store \<times> addr" where
  "alloc_attr h t = (h\<lparr>attr_cells := attr_cells h @ [t]\<rparr>, length (attr_cells h))"

text \<open>\<open>edge_index.clone()\<close>: a new object with the same values.\<close>

definition clone :: "('i, 'a) store \<Rightarrow> addr \<Rightarrow> ('i, 'a) store \<times> addr" where
  "clone h a = alloc_idx h (idx_cells h ! a)"

text \<open>\<open>edge_index[0] += off\<close> and \<open>edge_index[1] += off\<close>, in place.\<close>

definition iadd_row0 :: "('i :: plus, 'a) store \<Rightarrow> addr \<Rightarrow> 'i \<Rightarrow> ('i, 'a) store" where
  "iadd_row0 h a off =
     h\<lparr>idx_cells := (idx_cells h)[a := map (\<lambda>(r, c). (r + off, c)) (idx_cells h ! a)]\<rparr>"

definition iadd_row1 :: "('i :: plus, 'a) store \<Rightarrow> addr \<Rightarrow> 'i \<Rightarrow> ('i, 'a) store" where
  "iadd_row1 h a off =
     h\<lparr>idx_cells := (idx_cells h)[a := map (\<lambda>(r, c). (r, c + off)) (idx_cells h ! a)]\<rparr>"

text \<open>
  An adjacency (\<open>Adj\<close>) is a dense edge index (a reference), a \<open>SparseTensor\<close> of this
  library or a sparse tensor of the framework; \<open>is_sparse\<close> holds of the last two,
  \<open>isinstance(_, SparseTensor)\<close> of the middle one only. The content of a sparse matrix
  is of an abstract type \<open>'s\<close>, and \<open>to_edge_index\<close>, a helper outside this file, is a
  parameter giving its \<open>[row; col]\<close> edge index.
\<close>

datatype 's adj = Dense addr | SparseTensor 's | NativeSparse 's

fun is_sparse :: "'s adj \<Rightarrow> bool" where
  "is_sparse (Dense _) = False"
| "is_sparse (SparseTensor _) = True"
| "is_sparse (NativeSparse _) = True"

fun isinstance_SparseTensor :: "'s adj \<Rightarrow> bool" where
  "isinstance_SparseTensor (SparseTensor _) = True"
| "isinstance_SparseTensor _ = False"

fun sparse_content :: "'s adj \<Rightarrow> 's option" where
  "sparse_content (Dense _) = None"
| "sparse_content (SparseTensor s) = Some s"
| "sparse_content (NativeSparse s) = Some s"

text \<open>\<open>paddle.flip(edge_index, [0])\<close> exchanges the two rows.\<close>

definition flip0 :: "'i edge_index \<Rightarrow> 'i edge_index" where
  "flip0 t = map (\<lambda>(r, c). (c, r)) t"

text \<open>
  \<open>edge_attr_dict\<close> is a plain dictionary keyed by edge type, or a \<open>LayerDict\<close> keyed by
  \<open>'__'.join(edge_type)\<close>.
\<close>

datatype attr_dict = PlainDict "EdgeType \<rightharpoonup> addr" | LayerDictOf "string \<rightharpoonup> addr"

definition join_edge_type :: "EdgeType \<Rightarrow> string" where
  "join_edge_type et = (case et of (s, r, d) \<Rightarrow> s @ ''__'' @ r @ ''__'' @ d)"

fun attr_lookup :: "attr_dict \<Rightarrow> EdgeType \<Rightarrow> addr option" where
  "attr_lookup (PlainDict d) et = d et"
| "attr_lookup (LayerDictOf d) et = d (join_edge_type et)"

text \<open>
  \<open>paddle.expand(value, shape=[E, -1])\<close>: the first dimension must be 1 to be expanded,
  the second is kept.
\<close>

definition expand :: "'a attr \<Rightarrow> nat \<Rightarrow> error + 'a attr" where
  "expand v E =
     (if length (rows v) = 1 then Inr (Attr (width v) (replicate E (hd (rows v))))
      else Inl ValueError)"

text \<open>
  \<open>paddle.concat(xs, axis=1)\<close> on edge indices puts the columns one after the other;
  \<open>paddle.concat(xs, axis=0)\<close> on attributes puts the rows one after the other and needs
  equal widths. Both need at least one tensor.
\<close>

definition concat_axis1 :: "'i edge_index list \<Rightarrow> error + 'i edge_index" where
  "concat_axis1 ts = (if ts = [] then Inl ValueError else Inr (concat ts))"

definition concat_axis0 :: "'a attr list \<Rightarrow> error + 'a attr" where
  "concat_axis0 ts =
     (case ts of
        [] \<Rightarrow> Inl ValueError
      | t # rest \<Rightarrow>
          if list_all (\<lambda>t'. width t' = width t) rest
          then Inr (Attr (width t) (concat (map rows ts)))
          else Inl ValueError)"

text \<open>
  One turn of the loop over \<open>src_offset_dict.items()\<close>. The state is the store, the lists
  \<open>edge_indices\<close> and \<open>edge_attrs\<close> (of references) and \<open>is_sparse_tensor\<close>. An exception
  leaves the store as it is at that moment.
\<close>

definition bipartite_step ::
  "('s \<Rightarrow> 'i edge_index) \<Rightarrow> (EdgeType \<rightharpoonup> 's adj) \<Rightarrow> (NodeType \<rightharpoonup> 'i) \<Rightarrow> attr_dict option \<Rightarrow>
   EdgeType \<times> 'i \<Rightarrow> ('i :: plus, 'a) store \<times> addr list \<times> addr list \<times> bool \<Rightarrow>
   ('i, 'a) store \<times> (error + addr list \<times> addr list \<times> bool)" where
  "bipartite_step to_edge_index edge_index_dict dst_offset_dict edge_attr_dict item st =
     (case (item, st) of ((edge_type, src_offset), (h, edge_indices, edge_attrs, _)) \<Rightarrow>
      (case edge_index_dict edge_type of
         None \<Rightarrow> (h, Inl KeyError)
       | Some adj \<Rightarrow>
      (case dst_offset_dict (et_last edge_type) of
         None \<Rightarrow> (h, Inl KeyError)
       | Some dst_offset \<Rightarrow>
          (let is_sparse_tensor = isinstance_SparseTensor adj;
               (h1, edge_index) =
                  (case adj of
                     Dense a \<Rightarrow> clone h a
                   | SparseTensor s \<Rightarrow> alloc_idx h (flip0 (to_edge_index s))
                   | NativeSparse s \<Rightarrow> alloc_idx h (flip0 (to_edge_index s)));
               h2 = iadd_row0 h1 edge_index src_offset;
               h3 = iadd_row1 h2 edge_index dst_offset;
               edge_indices' = edge_indices @ [edge_index]
           in (case edge_attr_dict of
                 None \<Rightarrow> (h3, Inr (edge_indices', edge_attrs, is_sparse_tensor))
               | Some d \<Rightarrow>
                  (case attr_lookup d edge_type of
                     None \<Rightarrow> (h3, Inl KeyError)
                   | Some v \<Rightarrow>
                      if length (rows (attr_cells h3 ! v)) \<noteq> length (idx_cells h3 ! edge_index)
                      then (case expand (attr_cells h3 ! v) (length (idx_cells h3 ! edge_index)) of
                              Inl e \<Rightarrow> (h3, Inl e)
                            | Inr t \<Rightarrow>
                                (let (h4, v') = alloc_attr h3 t
                                 in (h4, Inr (edge_indices', edge_attrs @ [v'], is_sparse_tensor))))
                      else (h3, Inr (edge_indices', edge_attrs @ [v], is_sparse_tensor))))))))"

fun bipartite_loop ::
  "('s \<Rightarrow> 'i edge_index) \<Rightarrow> (EdgeType \<rightharpoonup> 's adj) \<Rightarrow> (NodeType \<rightharpoonup> 'i) \<Rightarrow> attr_dict option \<Rightarrow>
   (EdgeType \<times> 'i) list \<Rightarrow> ('i :: plus, 'a) store \<times> addr list \<times> addr list \<times> bool \<Rightarrow>
   ('i, 'a) store \<times> (error + addr list \<times> addr list \<times> bool)" where
  "bipartite_loop tei eid dod ead [] st = (fst st, Inr (snd st))"
| "bipartite_loop tei eid dod ead (item # items) st =
     (case bipartite_step tei eid dod ead item st of
        (h, Inl e) \<Rightarrow> (h, Inl e)
      | (h, Inr st') \<Rightarrow> bipartite_loop tei eid dod ead items (h, st'))"

text \<open>
  What the function returns: the edge index as a dense tensor (a reference) or wrapped
  into a \<open>SparseTensor(row, col, value, sparse_sizes)\<close>, and the optional attribute tensor.
\<close>

datatype 'i adj_out =
  DenseOut addr
  | SparseTensorOut "'i list" "'i list" "addr option" "nat option \<times> nat option"

definition construct_bipartite_edge_index ::
  "('s \<Rightarrow> 'i edge_index) \<Rightarrow> ('i :: plus, 'a) store \<Rightarrow>
   (EdgeType \<rightharpoonup> 's adj) \<Rightarrow> (EdgeType \<times> 'i) list \<Rightarrow> (NodeType \<rightharpoonup> 'i) \<Rightarrow>
   attr_dict option \<Rightarrow> nat option \<Rightarrow>
   ('i, 'a) store \<times> (error + 'i adj_out \<times> addr option)" where
  "construct_bipartite_edge_index to_edge_index h edge_index_dict src_offset_dict dst_offset_dict
      edge_attr_dict num_nodes =
     (case bipartite_loop to_edge_index edge_index_dict dst_offset_dict edge_attr_dict
             src_offset_dict (h, [], [], False) of
        (h1, Inl e) \<Rightarrow> (h1, Inl e)
      | (h1, Inr (edge_indices, edge_attrs, is_sparse_tensor)) \<Rightarrow>
         (case concat_axis1 (map (\<lambda>a. idx_cells h1 ! a) edge_indices) of
            Inl e \<Rightarrow> (h1, Inl e)
          | Inr t \<Rightarrow>
             (let (h2, edge_index) = alloc_idx h1 t in
              (case (case edge_attr_dict of
                       None \<Rightarrow> Inr (h2, None)
                     | Some _ \<Rightarrow>
                        (case concat_axis0 (map (\<lambda>a. attr_cells h2 ! a) edge_attrs) of
                           Inl e \<Rightarrow> Inl e
                         | Inr t' \<Rightarrow> (let (h3, ea) = alloc_attr h2 t' in Inr (h3, Some ea)))) of
                 Inl e \<Rightarrow> (h2, Inl e)
               | Inr (h3, edge_attr) \<Rightarrow>
                  if is_sparse_tensor
                  then (h3, Inr (SparseTensorOut (map snd (idx_cells h3 ! edge_index))
                                   (map fst (idx_cells h3 ! edge_index)) edge_attr
                                   (num_nodes, num_nodes), edge_attr))
                  else (h3, Inr (DenseOut edge_index, edge_attr))))))"

text \<open>
  For stating the result: the values a turn of the loop starts from, the shifted edge
  index, and the rows of an attribute after the optional expansion.
\<close>

definition adj_value :: "('s \<Rightarrow> 'i edge_index) \<Rightarrow> ('i, 'a) store \<Rightarrow> 's adj \<Rightarrow> 'i edge_index" where
  "adj_value to_edge_index h adj =
     (case adj of
        Dense a \<Rightarrow> idx_cells h ! a
      | SparseTensor s \<Rightarrow> flip0 (to_edge_index s)
      | NativeSparse s \<Rightarrow> flip0 (to_edge_index s))"

definition shift_edge_index :: "'i :: plus \<Rightarrow> 'i \<Rightarrow> 'i edge_index \<Rightarrow> 'i edge_index" where
  "shift_edge_index src_offset dst_offset t = map (\<lambda>(r, c). (r + src_offset, c + dst_offset)) t"

definition expanded :: "'a attr \<Rightarrow> nat \<Rightarrow> 'a attr" where
  "expanded v E = (if length (rows v) \<noteq> E then Attr (width v) (replicate E (hd (rows v))) else v)"

definition extends :: "('i, 'a) store \<Rightarrow> ('i, 'a) store \<Rightarrow> bool" where
  "extends h h' = (prefix (idx_cells h) (idx_cells h') \<and> prefix (attr_cells h) (attr_cells h'))"

text \<open>
  A small heterogeneous graph for concrete evaluations: two edge types into node type
  \<open>paper\<close>, with \<open>int64\<close> edge indices; the first attribute has one row and is expanded.
\<close>

definition ex_store :: "(64 word, int) store" where
  "ex_store = \<lparr>idx_cells = [[(0, 0), (1, 0)], [(0, 1)]],
               attr_cells = [Attr 2 [[1, 2]], Attr 2 [[5, 6]]]\<rparr>"

definition ex_edge_index_dict :: "EdgeType \<rightharpoonup> unit adj" where
  "ex_edge_index_dict =
     [(''author'', ''writes'', ''paper'') \<mapsto> Dense 0, (''paper'', ''cites'', ''paper'') \<mapsto> Dense 1]"

definition ex_src_offset_dict :: "(EdgeType \<times> 64 word) list" where
  "ex_src_offset_dict = [((''author'', ''writes'', ''paper''), 0), ((''paper'', ''cites'', ''paper''), 2)]"

definition ex_dst_offset_dict :: "NodeType \<rightharpoonup> 64 word" where
  "ex_dst_offset_dict = [''paper'' \<mapsto> 10]"

definition ex_edge_attr_dict :: attr_dict where
  "ex_edge_attr_dict =
     PlainDict [(''author'', ''writes'', ''paper'') \<mapsto> 0, (''paper'', ''cites'', ''paper'') \<mapsto> 1]"

definition ex_addr :: "EdgeType \<Rightarrow> addr" where
  "ex_addr et = (if et = (''author'', ''writes'', ''paper'') then 0 else 1)"

section \<open>nn/conv/hetero_conv.py: group and HeteroConv.forward\<close>




text \<open>
  The dictionaries passed to \<open>forward\<close> are keyed by node types or by edge types. A
  convolution receives, per dictionary, the edge-level value, the node-level value (when
  source and destination type agree) or the pair of the source's and the destination's
  values, each possibly \<open>None\<close>.
\<close>

datatype dkey = NodeKey NodeType | EdgeKey EdgeType

type_synonym 'v value_dict = "dkey \<rightharpoonup> 'v"

datatype 'v arg = ArgVal 'v | ArgPair "'v option" "'v option"


text \<open>
  One turn of \<open>for value_dict in args_dict\<close>, on \<open>(has_edge_level_arg, args)\<close>. A key is
  in the dictionary when the map gives \<open>Some\<close>; \<open>value_dict.get(k, None)\<close> is the map's
  answer itself.
\<close>

definition args_step ::
  "EdgeType \<Rightarrow> 'v value_dict \<Rightarrow> bool \<times> 'v arg list \<Rightarrow> bool \<times> 'v arg list" where
  "args_step edge_type value_dict st =
     (case (edge_type, st) of ((src, rel, dst), (has_edge_level_arg, args)) \<Rightarrow>
        (case value_dict (EdgeKey edge_type) of
           Some v \<Rightarrow> (True, args @ [ArgVal v])
         | None \<Rightarrow>
            (case (if src = dst then value_dict (NodeKey src) else None) of
               Some v \<Rightarrow> (has_edge_level_arg, args @ [ArgVal v])
             | None \<Rightarrow>
                if value_dict (NodeKey src) \<noteq> None \<or> value_dict (NodeKey dst) \<noteq> None
                then (has_edge_level_arg,
                      args @ [ArgPair (value_dict (NodeKey src)) (value_dict (NodeKey dst))])
                else (has_edge_level_arg, args))))"





















section \<open>transforms/rooted_subgraph.py: RootedSubgraph.map\<close>

text \<open>
  A \<open>Data\<close> object, as far as the transforms and the sampler read it: the edge index (a
  \<open>[2, E]\<close> tensor of node indices, here the list of its columns) and the number of nodes;
  either may be absent. Node indices are natural numbers; an index beyond the indexed
  dimension raises \<open>IndexError\<close>.
\<close>

record Data =
  edge_index :: "(nat \<times> nat) list option"
  num_nodes :: "nat option"

definition bnd :: "error + 'a \<Rightarrow> ('a \<Rightarrow> error + 'b) \<Rightarrow> error + 'b" where
  "bnd x f = (case x of Inl e \<Rightarrow> Inl e | Inr v \<Rightarrow> f v)"

text \<open>
  The creation functions of the framework are called with keyword arguments. Python
  raises \<open>TypeError\<close> for a keyword that the called function does not have. The lists
  hold the parameter names of \<open>paddle.arange\<close>, \<open>paddle.eye\<close> and \<open>paddle.zeros\<close>,
  including those of the newer releases (\<open>out\<close>, \<open>device\<close>, \<open>requires_grad\<close>,
  \<open>pin_memory\<close>); none of the three has a parameter \<open>place\<close>. \<open>call_with\<close> is a call
  that passes the keywords \<open>given\<close> to a function with the parameters \<open>accepted\<close>.
\<close>

definition arange_keywords :: "string list" where
  "arange_keywords =
     [''start'', ''end'', ''step'', ''dtype'', ''name'',
      ''out'', ''device'', ''requires_grad'', ''pin_memory'']"

definition eye_keywords :: "string list" where
  "eye_keywords =
     [''num_rows'', ''num_columns'', ''dtype'', ''name'',
      ''out'', ''device'', ''requires_grad'', ''pin_memory'']"

definition zeros_keywords :: "string list" where
  "zeros_keywords =
     [''shape'', ''dtype'', ''name'', ''out'', ''device'', ''requires_grad'', ''pin_memory'']"

definition call_with :: "string list \<Rightarrow> string list \<Rightarrow> error + 'a \<Rightarrow> error + 'a" where
  "call_with accepted given result =
     (if list_all (\<lambda>k. k \<in> set accepted) given then result else Inl TypeError)"

text \<open>\<open>xs[idx]\<close> for an index tensor \<open>idx\<close>.\<close>

definition gather :: "'a list \<Rightarrow> nat list \<Rightarrow> error + 'a list" where
  "gather xs idx = map_result (\<lambda>i. if i < length xs then Inr (xs ! i) else Inl IndexError) idx"

text \<open>
  \<open>paddle.nonzero(m, as_tuple=True)\<close> on a matrix: the positions of the true entries in
  row-major order; the first component of the tuple holds their rows, the second their
  columns.
\<close>

definition nonzero :: "bool list list \<Rightarrow> (nat \<times> nat) list" where
  "nonzero m =
     concat (map (\<lambda>i. map (\<lambda>j. (i, j)) (filter (\<lambda>j. m ! i ! j) [0..<length (m ! i)]))
               [0..<length m])"

text \<open>\<open>m[:, idx]\<close>: the columns \<open>idx\<close> of every row.\<close>

definition index_cols :: "'a list list \<Rightarrow> nat list \<Rightarrow> error + 'a list list" where
  "index_cols m idx = map_result (\<lambda>r. gather r idx) m"

text \<open>\<open>a & b\<close> on boolean matrices of one shape.\<close>

definition mat_and :: "bool list list \<Rightarrow> bool list list \<Rightarrow> bool list list" where
  "mat_and a b = map2 (map2 (\<and>)) a b"

text \<open>
  \<open>m[rows, cols] = values\<close>: one assignment per position, in order; the three index
  tensors must have one length.
\<close>

fun index_put :: "'a list list \<Rightarrow> (nat \<times> nat) list \<Rightarrow> 'a list \<Rightarrow> error + 'a list list" where
  "index_put m [] [] = Inr m"
| "index_put m ((i, j) # ps) (v # vs) =
     (if i < length m \<and> j < length (m ! i)
      then index_put (m[i := (m ! i)[j := v]]) ps vs
      else Inl IndexError)"
| "index_put m _ _ = Inl ValueError"

text \<open>\<open>flat[sub_edge_index]\<close> for a \<open>[2, T]\<close> index tensor.\<close>

definition gather2 :: "'a list \<Rightarrow> (nat \<times> nat) list \<Rightarrow> error + ('a \<times> 'a) list" where
  "gather2 flat idx =
     map_result (\<lambda>(x, y). if x < length flat \<and> y < length flat then Inr (flat ! x, flat ! y)
                            else Inl IndexError) idx"

definition RootedSubgraph_map ::
  "Data \<Rightarrow> bool list list \<Rightarrow>
   error + (nat \<times> nat) list \<times> nat list \<times> nat list \<times> nat list \<times> nat list" where
  "RootedSubgraph_map data n_mask =
     (case edge_index data of
        None \<Rightarrow> Inl AssertionError
      | Some ei \<Rightarrow>
     (case num_nodes data of
        None \<Rightarrow> Inl AssertionError
      | Some N \<Rightarrow>
         (let n_sub_batch = map fst (nonzero n_mask);
              n_id = map snd (nonzero n_mask)
          in bnd (index_cols n_mask (map fst ei)) (\<lambda>m0.
             bnd (index_cols n_mask (map snd ei)) (\<lambda>m1.
             (let e_mask = mat_and m0 m1;
                  e_sub_batch = map fst (nonzero e_mask);
                  e_id = map snd (nonzero e_mask)
              in bnd (gather ei e_id) (\<lambda>sub_edge_index.
                 bnd (call_with arange_keywords [''device''] (Inr [0..<length n_id])) (\<lambda>arange.
                 (let node_map = replicate N (replicate N (1 :: nat))
                  in bnd (index_put node_map (zip n_sub_batch n_id) arange) (\<lambda>node_map.
                     bnd (gather (map (\<lambda>a. a * N) arange) e_sub_batch) (\<lambda>offs.
                     (let sub_edge_index = map2 (\<lambda>(u, v) off. (u + off, v + off)) sub_edge_index offs
                      in bnd (gather2 (concat node_map) sub_edge_index) (\<lambda>sub_edge_index.
                         Inr (sub_edge_index, n_id, e_id, n_sub_batch, e_sub_batch))))))))))))))"

text \<open>
  For stating the result: the edge mask \<open>e_mask\<close> in closed form, row \<open>b\<close> telling for
  each edge whether both its endpoints are marked in row \<open>b\<close> of \<open>n_mask\<close>.
\<close>

definition edge_mask :: "bool list list \<Rightarrow> (nat \<times> nat) list \<Rightarrow> bool list list" where
  "edge_mask n_mask ei = map (\<lambda>r. map (\<lambda>(u, v). r ! u \<and> r ! v) ei) n_mask"

text \<open>
  \<open>row_major ps\<close>: the positions \<open>ps\<close> come in strictly increasing row-major order,
  first by row, then by column.
\<close>

definition row_major :: "(nat \<times> nat) list \<Rightarrow> bool" where
  "row_major ps = sorted_wrt (\<lambda>(i, j) (i', j'). i < i' \<or> (i = i' \<and> j < j')) ps"

text \<open>
  A path of three nodes, with both directions of each edge, and the membership
  matrix of its 1-hop neighbourhoods, for concrete evaluations.
\<close>

definition ex_data :: Data where
  "ex_data = \<lparr>edge_index = Some [(0, 1), (1, 0), (1, 2), (2, 1)], num_nodes = Some 3\<rparr>"

definition ex_n_mask :: "bool list list" where
  "ex_n_mask = [[True, True, False], [True, True, True], [False, True, True]]"

section \<open>transforms/rooted_subgraph.py: RootedRWSubgraph\<close>

text \<open>
  \<open>paddle.tile(x.reshape([-1, 1]), [1, r]).reshape([-1])\<close>: every entry of \<open>x\<close> repeated
  \<open>r\<close> times in a row.
\<close>

definition tile_repeat :: "'a list \<Rightarrow> nat \<Rightarrow> 'a list" where
  "tile_repeat x r = concat (map (replicate r) x)"

text \<open>
  \<open>m[rows, cols] = value\<close> with a scalar value: the two index tensors are broadcast
  against each other (equal lengths, or one of length 1) and every position is assigned.
\<close>

definition broadcast_pairs :: "nat list \<Rightarrow> nat list \<Rightarrow> error + (nat \<times> nat) list" where
  "broadcast_pairs rs cs =
     (if length rs = length cs then Inr (zip rs cs)
      else if length rs = 1 then Inr (map (\<lambda>c. (rs ! 0, c)) cs)
      else if length cs = 1 then Inr (map (\<lambda>r. (r, cs ! 0)) rs)
      else Inl ValueError)"

definition index_put_scalar :: "'a list list \<Rightarrow> nat list \<Rightarrow> nat list \<Rightarrow> 'a \<Rightarrow> error + 'a list list" where
  "index_put_scalar m rs cs v =
     bnd (broadcast_pairs rs cs) (\<lambda>ps. index_put m ps (replicate (length ps) v))"

text \<open>
  \<open>random_walk\<close>, a helper outside this file, is random: it is a parameter of the model,
  standing for one outcome. It receives the rows and columns of the edge index, the start
  nodes, the walk length and the number of nodes, and returns the walks as a tensor with
  one row per start node, or raises.

  \<open>RootedRWSubgraph_n_mask\<close> is \<open>extract\<close> up to the node mask it passes to \<open>map\<close>. The
  start nodes are asked for as \<open>paddle.arange(num_nodes, dtype='int64', place=...)\<close> and
  the empty mask as \<open>paddle.zeros((num_nodes, num_nodes), dtype='bool', place=...)\<close>.
\<close>

type_synonym random_walk =
  "nat list \<Rightarrow> nat list \<Rightarrow> nat list \<Rightarrow> nat \<Rightarrow> nat \<Rightarrow> error + nat list list"

definition RootedRWSubgraph_n_mask ::
  "random_walk \<Rightarrow> nat \<Rightarrow> nat \<Rightarrow> Data \<Rightarrow> error + bool list list" where
  "RootedRWSubgraph_n_mask random_walk walk_length repeat data =
     (case edge_index data of
        None \<Rightarrow> Inl AssertionError
      | Some ei \<Rightarrow>
     (case num_nodes data of
        None \<Rightarrow> Inl AssertionError
      | Some N \<Rightarrow>
         bnd (call_with arange_keywords [''dtype'', ''place''] (Inr [0..<N])) (\<lambda>start.
         (let start = tile_repeat start repeat
          in bnd (random_walk (map fst ei) (map snd ei) start walk_length N) (\<lambda>walk.
             bnd (call_with zeros_keywords [''dtype'', ''place''] (Inr (replicate N (replicate N False))))
               (\<lambda>n_mask.
             (let start = tile_repeat start (walk_length + 1)
              in index_put_scalar n_mask start (concat walk) True)))))))"

definition RootedRWSubgraph_extract ::
  "random_walk \<Rightarrow> nat \<Rightarrow> nat \<Rightarrow> Data \<Rightarrow>
   error + (nat \<times> nat) list \<times> nat list \<times> nat list \<times> nat list \<times> nat list" where
  "RootedRWSubgraph_extract random_walk walk_length repeat data =
     bnd (RootedRWSubgraph_n_mask random_walk walk_length repeat data)
         (\<lambda>n_mask. RootedSubgraph_map data n_mask)"

text \<open>
  One outcome of two walks of length 2 from each node of the path \<open>0 - 1 - 2\<close>, for
  concrete evaluations.
\<close>

definition ex_random_walk :: random_walk where
  "ex_random_walk row col start walk_length N =
     Inr [[0, 1, 0], [0, 1, 2], [1, 0, 1], [1, 2, 1], [2, 1, 2], [2, 1, 2]]"

section \<open>transforms/rooted_subgraph.py: RootedEgoNets\<close>

text \<open>
  Modelled from the spec: \<open>to_paddle_csc_tensor\<close> of \<open>paddle_geometric.utils\<close>, which is not
  among the source files. It turns an edge index into the sparse adjacency matrix of the
  given size, with value 1 for every edge: entry \<open>(r, c)\<close> is the number of edges from \<open>r\<close>
  to \<open>c\<close>. A matrix is the list of its rows. An edge outside the size is an error.

  The mask of \<open>extract\<close> is a \<open>float32\<close> tensor that only ever holds sums of products of
  non-negative numbers and is only tested for \<open>> 0\<close>; the model counts in natural
  numbers, which has the same positive entries.
\<close>

definition to_paddle_csc_tensor :: "(nat \<times> nat) list \<Rightarrow> nat \<times> nat \<Rightarrow> error + nat list list" where
  "to_paddle_csc_tensor ei sz =
     (case sz of (n, m) \<Rightarrow>
        if list_all (\<lambda>(r, c). r < n \<and> c < m) ei
        then Inr (map (\<lambda>r. map (\<lambda>c. count_list ei (r, c)) [0..<m]) [0..<n])
        else Inl ValueError)"

text \<open>\<open>a.t()\<close>, \<open>paddle.eye(N)\<close>, \<open>paddle.matmul(a, b)\<close> and \<open>a += b\<close> on matrices.\<close>

definition mat_t :: "'a list list \<Rightarrow> 'a list list" where
  "mat_t m = (case m of [] \<Rightarrow> [] | r # _ \<Rightarrow> map (\<lambda>j. map (\<lambda>row. row ! j) m) [0..<length r])"

definition eye :: "nat \<Rightarrow> nat list list" where
  "eye N = map (\<lambda>i. map (\<lambda>j. if i = j then 1 else 0) [0..<N]) [0..<N]"

definition ncols :: "'a list list \<Rightarrow> nat" where
  "ncols m = (case m of [] \<Rightarrow> 0 | r # _ \<Rightarrow> length r)"

definition matmul :: "nat list list \<Rightarrow> nat list list \<Rightarrow> error + nat list list" where
  "matmul a b =
     (if list_all (\<lambda>r. length r = length b) a
      then Inr (map (\<lambda>r. map (\<lambda>j. sum_list (map2 (\<lambda>x brow. x * brow ! j) r b)) [0..<ncols b]) a)
      else Inl ValueError)"

definition mat_add :: "nat list list \<Rightarrow> nat list list \<Rightarrow> nat list list" where
  "mat_add a b = map2 (map2 (+)) a b"

text \<open>\<open>for _ in range(num_hops): n_mask += paddle.matmul(adj_t, n_mask)\<close>.\<close>

fun hops :: "nat \<Rightarrow> nat list list \<Rightarrow> nat list list \<Rightarrow> error + nat list list" where
  "hops 0 adj_t n_mask = Inr n_mask"
| "hops (Suc k) adj_t n_mask =
     bnd (matmul adj_t n_mask) (\<lambda>p. hops k adj_t (mat_add n_mask p))"

text \<open>
  \<open>RootedEgoNets_n_mask\<close> is \<open>extract\<close> up to the mask \<open>n_mask > 0\<close> it passes to \<open>map\<close>;
  \<open>data.size()\<close> is \<open>(num_nodes, num_nodes)\<close>. The identity matrix is asked for as
  \<open>paddle.eye(num_nodes, dtype='float32', place=...)\<close>.
\<close>

definition RootedEgoNets_n_mask :: "nat \<Rightarrow> Data \<Rightarrow> error + bool list list" where
  "RootedEgoNets_n_mask num_hops data =
     (case edge_index data of
        None \<Rightarrow> Inl AssertionError
      | Some ei \<Rightarrow>
     (case num_nodes data of
        None \<Rightarrow> Inl AssertionError
      | Some N \<Rightarrow>
         bnd (to_paddle_csc_tensor ei (N, N)) (\<lambda>adj.
         (let adj_t = mat_t adj
          in bnd (call_with eye_keywords [''dtype'', ''place''] (Inr (eye N))) (\<lambda>n_mask.
             bnd (hops num_hops adj_t n_mask) (\<lambda>n_mask.
             Inr (map (map (\<lambda>x. 0 < x)) n_mask)))))))"

definition RootedEgoNets_extract ::
  "nat \<Rightarrow> Data \<Rightarrow> error + (nat \<times> nat) list \<times> nat list \<times> nat list \<times> nat list \<times> nat list" where
  "RootedEgoNets_extract num_hops data =
     bnd (RootedEgoNets_n_mask num_hops data) (\<lambda>n_mask. RootedSubgraph_map data n_mask)"

text \<open>
  For stating the result: \<open>has_walk ei n a b\<close> holds when there is a walk of \<open>n\<close> edges of
  \<open>ei\<close> from \<open>a\<close> to \<open>b\<close>; \<open>sq N m\<close> says that \<open>m\<close> has shape \<open>[N, N]\<close>.
\<close>

fun has_walk :: "(nat \<times> nat) list \<Rightarrow> nat \<Rightarrow> nat \<Rightarrow> nat \<Rightarrow> bool" where
  "has_walk ei 0 a b = (a = b)"
| "has_walk ei (Suc n) a b = list_ex (\<lambda>(u, w). w = b \<and> has_walk ei n a u) ei"

definition sq :: "nat \<Rightarrow> 'a list list \<Rightarrow> bool" where
  "sq N m = (length m = N \<and> (\<forall>r \<in> set m. length r = N))"

section \<open>sampler/utils.py: sort_csc and to_csc\<close>

text \<open>
  Modelled from the spec: \<open>index_sort\<close> and \<open>lexsort\<close> of \<open>paddle_geometric.utils\<close> and
  \<open>index2ptr\<close> of \<open>paddle_geometric.index\<close>, which are not among the source files.
  \<open>index_sort\<close> sorts a tensor of indices and returns the sorted values with the
  permutation that sorts them; \<open>lexsort\<close> returns the permutation that sorts by the last
  key first and by the earlier keys among equals; \<open>index2ptr\<close> turns a sorted index tensor
  into the pointer array of the compressed format, entry \<open>j\<close> counting the indices below
  \<open>j\<close>, for \<open>j\<close> from 0 to the size (the largest index plus one when no size is given).
\<close>

definition index_sort :: "nat list \<Rightarrow> nat list \<times> nat list" where
  "index_sort xs =
     (let perm = sort_key (\<lambda>i. xs ! i) [0..<length xs]
      in (map (\<lambda>i. xs ! i) perm, perm))"

definition lexsort :: "int list list \<Rightarrow> nat list" where
  "lexsort keys =
     foldl (\<lambda>perm key. sort_key (\<lambda>i. key ! i) perm) [0..<length (last keys)] keys"

definition index2ptr :: "nat list \<Rightarrow> nat option \<Rightarrow> nat list" where
  "index2ptr index sz =
     (let n = (case sz of Some n \<Rightarrow> n | None \<Rightarrow> if index = [] then 0 else Max (set index) + 1)
      in map (\<lambda>j. length (filter (\<lambda>c. c < j) index)) [0..<n + 1])"

text \<open>
  \<open>sort_csc\<close>. The times are integer tensors; \<open>assert src_node_time is None\<close> is the
  \<open>AssertionError\<close> branch.
\<close>

definition sort_csc ::
  "nat list \<Rightarrow> nat list \<Rightarrow> int list option \<Rightarrow> int list option \<Rightarrow>
   error + nat list \<times> nat list \<times> nat list" where
  "sort_csc row col src_node_time edge_time =
     (if src_node_time = None \<and> edge_time = None
      then (let (col', perm) = index_sort col
            in bnd (gather row perm) (\<lambda>row'. Inr (row', col', perm)))
      else
        (case edge_time of
           Some et \<Rightarrow>
             if src_node_time \<noteq> None then Inl AssertionError
             else (let perm = lexsort [et, map int col]
                   in bnd (gather row perm) (\<lambda>row'.
                      bnd (gather col perm) (\<lambda>col'. Inr (row', col', perm))))
         | None \<Rightarrow>
             bnd (gather (the src_node_time) row) (\<lambda>times.
             (let perm = lexsort [times, map int col]
              in bnd (gather row perm) (\<lambda>row'.
                 bnd (gather col perm) (\<lambda>col'. Inr (row', col', perm)))))))"

text \<open>
  The object given to \<open>to_csc\<close>: a \<open>Data\<close> object that may in addition carry a sparse
  adjacency under the attribute \<open>adj\<close> or \<open>adj_t\<close>. The content of a sparse matrix is of
  an abstract type \<open>'s\<close>; its methods \<open>csc()\<close> and \<open>csr()\<close>, which give the pointer and
  index arrays, are parameters. \<open>data.size(1)\<close> is the number of nodes. The arguments
  \<open>device\<close> and \<open>share_memory\<close> move tensors and do not change values; they are left out.
\<close>

record 's SamplerData = Data +
  adj_attr :: "'s option"
  adj_t_attr :: "'s option"

definition to_csc ::
  "('s \<Rightarrow> nat list \<times> nat list) \<Rightarrow> ('s \<Rightarrow> nat list \<times> nat list) \<Rightarrow> 's SamplerData \<Rightarrow>
   bool \<Rightarrow> int list option \<Rightarrow> int list option \<Rightarrow>
   error + nat list \<times> nat list \<times> nat list option" where
  "to_csc csc csr data is_sorted src_node_time edge_time =
     (case adj_attr data of
        Some a \<Rightarrow>
          if src_node_time \<noteq> None then Inl NotImplementedError
          else (let (colptr, row) = csc a in Inr (colptr, row, None))
      | None \<Rightarrow>
     (case adj_t_attr data of
        Some a \<Rightarrow> (let (colptr, row) = csr a in Inr (colptr, row, None))
      | None \<Rightarrow>
     (case edge_index data of
        Some ei \<Rightarrow>
          (let row = map fst ei; col = map snd ei
           in if \<not> is_sorted
              then bnd (sort_csc row col src_node_time edge_time) (\<lambda>(row', col', perm).
                     Inr (index2ptr col' (num_nodes data), row', Some perm))
              else Inr (index2ptr col (num_nodes data), row, None))
      | None \<Rightarrow>
          (case num_nodes data of
             None \<Rightarrow> Inl TypeError
           | Some n \<Rightarrow> Inr (replicate (n + 1) 0, [], None)))))"

text \<open>
  A graph of three nodes with four edges, as an edge list and with an additional
  \<open>adj_t\<close> attribute, and a graph whose edge leaves the node range, for concrete
  evaluations. The sparse matrix is given by its arrays.
\<close>

definition ex_edge_list :: "(nat list \<times> nat list) SamplerData" where
  "ex_edge_list =
     \<lparr>edge_index = Some [(0, 2), (1, 0), (2, 2), (0, 1)], num_nodes = Some 3,
      adj_attr = None, adj_t_attr = None\<rparr>"

definition ex_with_adj_t :: "(nat list \<times> nat list) SamplerData" where
  "ex_with_adj_t =
     \<lparr>edge_index = Some [(0, 2), (1, 0), (2, 2), (0, 1)], num_nodes = Some 3,
      adj_attr = None, adj_t_attr = Some ([0, 1, 2, 4], [1, 0, 0, 2])\<rparr>"

definition ex_out_of_range :: "(nat list \<times> nat list) SamplerData" where
  "ex_out_of_range =
     \<lparr>edge_index = Some [(0, 5)], num_nodes = Some 1, adj_attr = None, adj_t_attr = None\<rparr>"
section \<open>Properties of check_add_self_loops\<close>

lemma init_checks_char:
  "init_checks cs =
     (if list_ex (\<lambda>(et, m). et_first et \<noteq> et_last et \<and> add_self_loops m = Some True) cs
      then Inl ValueError else Inr ())"
  by (induction cs)
     (auto simp: check_add_self_loops_def getattr_add_self_loops_def split: option.splits if_splits)

text \<open>
  C8. \<open>check_add_self_loops\<close> raises \<open>ValueError\<close> exactly when the edge-type list
  holds a bipartite edge type (source type different from destination type) and the
  module's \<open>add_self_loops\<close> attribute is present and true; otherwise it returns without
  error. Constructing a \<open>HeteroConv\<close> raises \<open>ValueError\<close> exactly when one of its
  items is a bipartite edge type with such a module, and otherwise yields the layer.
\<close>

theorem check_add_self_loops_raises_iff:
  "check_add_self_loops module edge_types =
     (if (\<exists>key \<in> set edge_types. et_first key \<noteq> et_last key) \<and> add_self_loops module = Some True
      then Inl ValueError else Inr ())
   \<and> HeteroConv_init cs a =
     (if (\<exists>(et, m) \<in> set cs. et_first et \<noteq> et_last et \<and> add_self_loops m = Some True)
      then Inl ValueError else Inr \<lparr>convs = cs, aggr = a\<rparr>)"
  by (auto simp: check_add_self_loops_def getattr_add_self_loops_def HeteroConv_init_def
        init_checks_char list_ex_iff split: option.splits)

theorem check_add_self_loops_raises_iff_witness:
  "check_add_self_loops \<lparr>add_self_loops = Some True\<rparr> [(''paper'', ''cites'', ''paper''), (''author'', ''writes'', ''paper'')]
     = Inl ValueError
   \<and> HeteroConv_init [((''author'', ''writes'', ''paper''), \<lparr>add_self_loops = None\<rparr>)] (Some ''sum'')
     = Inr \<lparr>convs = [((''author'', ''writes'', ''paper''), \<lparr>add_self_loops = None\<rparr>)], aggr = Some ''sum''\<rparr>"
  using check_add_self_loops_raises_iff
    [of "\<lparr>add_self_loops = Some True\<rparr>" "[(''paper'', ''cites'', ''paper''), (''author'', ''writes'', ''paper'')]"
        "[((''author'', ''writes'', ''paper''), \<lparr>add_self_loops = None\<rparr>)]" "Some ''sum''"]
  by (simp add: et_first_def et_last_def)

section \<open>Properties of the ParameterDict key encoding\<close>

lemma contains_iff: "contains sub s \<longleftrightarrow> (\<exists>ps ss. s = ps @ sub @ ss)"
proof (induction s)
  case Nil
  then show ?case by auto
next
  case (Cons c cs)
  show ?case
  proof
    assume "contains sub (c # cs)"
    then consider "prefix sub (c # cs)" | "contains sub cs" by auto
    then show "\<exists>ps ss. c # cs = ps @ sub @ ss"
    proof cases
      case 1
      then obtain ss where "c # cs = sub @ ss" by (auto simp: prefix_def)
      then have "c # cs = [] @ sub @ ss" by simp
      then show ?thesis by blast
    next
      case 2
      then obtain ps ss where "cs = ps @ sub @ ss" using Cons.IH by blast
      then have "c # cs = (c # ps) @ sub @ ss" by simp
      then show ?thesis by blast
    qed
  next
    assume "\<exists>ps ss. c # cs = ps @ sub @ ss"
    then obtain ps ss where eq: "c # cs = ps @ sub @ ss" by blast
    show "contains sub (c # cs)"
    proof (cases ps)
      case Nil
      then have "prefix sub (c # cs)" using eq by (simp add: prefix_def)
      then show ?thesis by simp
    next
      case (Cons p ps')
      then have "cs = ps' @ sub @ ss" using eq by simp
      then show ?thesis using Cons.IH by auto
    qed
  qed
qed

lemma split_from_piece:
  assumes "sep \<noteq> []"
    and "\<forall>i < length x. \<not> prefix sep (drop i x @ sep @ rest)"
  shows "split_from sep cur (x @ sep @ rest) = (cur @ x) # split_from sep [] rest"
  using assms(2)
proof (induction x arbitrary: cur)
  case Nil
  obtain s ss where sep: "sep = s # ss" using assms(1) by (cases sep) auto
  show ?case by (simp add: sep)
next
  case (Cons c x)
  have "\<not> prefix sep ((c # x) @ sep @ rest)" using Cons.prems by fastforce
  moreover have "\<forall>i < length x. \<not> prefix sep (drop i x @ sep @ rest)"
    using Cons.prems by fastforce
  ultimately show ?case using Cons.IH[of "cur @ [c]"] by simp
qed

lemma split_from_last:
  assumes "\<not> contains sep x"
  shows "split_from sep cur x = [cur @ x]"
  using assms by (induction x arbitrary: cur) auto

lemma no_sep_start:
  assumes nc: "\<not> contains ''___'' x" and nl: "x = [] \<or> last x \<noteq> CHR ''_''"
  shows "\<forall>i < length x. \<not> prefix ''___'' (drop i x @ ''___'' @ rest)"
proof (intro allI impI notI)
  fix i assume i: "i < length x" and p: "prefix ''___'' (drop i x @ ''___'' @ rest)"
  let ?u = "drop i x"
  have une: "?u \<noteq> []" using i by simp
  have lu: "last ?u = last x" using i by simp
  from p consider "prefix ''___'' ?u" | us where "''___'' = ?u @ us"
    by (auto simp: prefix_append)
  then show False
  proof cases
    case 1
    then obtain ss where "?u = ''___'' @ ss" by (auto simp: prefix_def)
    then have "x = take i x @ ''___'' @ ss" by (metis append_take_drop_id)
    then show ?thesis using nc contains_iff by blast
  next
    case 2
    then have "last ?u \<in> set ''___''" using une
      by (metis last_in_set Un_iff set_append)
    then have "last x = CHR ''_''" using lu by simp
    moreover have "x \<noteq> []" using i by auto
    ultimately show ?thesis using nl by simp
  qed
qed

lemma split_join:
  assumes "ks \<noteq> []"
    and "\<forall>c \<in> set ks. \<not> contains ''___'' c"
    and "\<forall>c \<in> set (butlast ks). c = [] \<or> last c \<noteq> CHR ''_''"
  shows "split_from ''___'' cur (join ''___'' ks) = (cur @ hd ks) # tl ks"
  using assms
proof (induction "''___''" ks arbitrary: cur rule: join.induct)
  case 1
  then show ?case by simp
next
  case (2 x)
  then show ?case by (simp add: split_from_last)
next
  case (3 x y ys)
  have a: "\<forall>i < length x. \<not> prefix ''___'' (drop i x @ ''___'' @ join ''___'' (y # ys))"
    using no_sep_start[of x] "3.prems" by simp
  have "split_from ''___'' cur (x @ ''___'' @ join ''___'' (y # ys))
        = (cur @ x) # split_from ''___'' [] (join ''___'' (y # ys))"
    by (rule split_from_piece[OF _ a]) simp
  moreover have "split_from ''___'' [] (join ''___'' (y # ys)) = ([] @ hd (y # ys)) # tl (y # ys)"
    using "3.prems" by (intro "3.hyps") auto
  ultimately show ?case by simp
qed

lemma str_replace_id: "old \<notin> set s \<Longrightarrow> str_replace old new s = s"
  by (induction s) (auto simp: str_replace_def)

lemma str_replace_back:
  "new \<notin> set s \<Longrightarrow> str_replace new old (str_replace old new s) = s"
  by (induction s) (auto simp: str_replace_def)

lemma slice_wrap: "slice_1_m1 (CHR ''<'' # s @ ''>'') = s"
  by (simp add: slice_1_m1_def butlast_append)

lemma set_join: "set (join sep ks) \<subseteq> set sep \<union> \<Union> (set ` set ks)"
  by (induction sep ks rule: join.induct) auto

lemma contains_join: "2 \<le> length ks \<Longrightarrow> contains sep (join sep ks)"
proof -
  assume "2 \<le> length ks"
  then obtain x y ys where "ks = x # y # ys"
    by (metis One_nat_def Suc_1 Suc_le_length_iff)
  then have "join sep ks = x @ sep @ join sep (y # ys)" by simp
  then show ?thesis using contains_iff by blast
qed

lemma internal_str:
  assumes "s \<noteq> []" "CHR ''#'' \<notin> set s" "\<not> (hd s = CHR ''<'' \<and> last s = CHR ''>'')"
  shows "\<exists>ik. to_internal_key CA (Str s) = Inr ik \<and> to_external_key CA ik = Inr (Str s)"
proof (cases "s \<in> CA")
  case True
  have w: "CHR ''#'' \<notin> set (CHR ''<'' # s @ ''>'')" using assms(2) by simp
  have i: "to_internal_key CA (Str s) = Inr (str_replace CHR ''.'' CHR ''#'' (CHR ''<'' # s @ ''>''))"
    using True by (simp add: to_internal_key_def)
  have b: "str_replace CHR ''#'' CHR ''.'' (str_replace CHR ''.'' CHR ''#'' (CHR ''<'' # s @ ''>''))
           = CHR ''<'' # s @ ''>''"
    using w by (rule str_replace_back)
  have "to_external_key CA (str_replace CHR ''.'' CHR ''#'' (CHR ''<'' # s @ ''>'')) = Inr (Str s)"
    unfolding to_external_key_def b using True assms
    by (auto simp: slice_wrap Let_def)
  then show ?thesis using i by simp
next
  case False
  have i: "to_internal_key CA (Str s) = Inr (str_replace CHR ''.'' CHR ''#'' s)"
    using False by (simp add: to_internal_key_def)
  have b: "str_replace CHR ''#'' CHR ''.'' (str_replace CHR ''.'' CHR ''#'' s) = s"
    using assms(2) by (rule str_replace_back)
  have "to_external_key CA (str_replace CHR ''.'' CHR ''#'' s) = Inr (Str s)"
    unfolding to_external_key_def b using assms by (auto simp: Let_def)
  then show ?thesis using i by simp
qed

lemma internal_tup:
  assumes ca: "attrs_ok CA" and len: "2 \<le> length ks"
    and cs: "\<forall>c \<in> set ks. CHR ''.'' \<notin> set c \<and> CHR ''#'' \<notin> set c \<and> \<not> contains ''___'' c"
    and us: "\<forall>c \<in> set (butlast ks). c = [] \<or> last c \<noteq> CHR ''_''"
  shows "\<exists>ik. to_internal_key CA (Tup ks) = Inr ik \<and> to_external_key CA ik = Inr (Tup ks)"
proof -
  let ?J = "join ''___'' ks"
  let ?k = "CHR ''<'' # ?J @ ''>''"
  have kne: "ks \<noteq> []" using len by auto
  have nk: "?k \<notin> CA" using ca by (auto simp: attrs_ok_def)
  have cj: "contains ''___'' ?J" using len by (rule contains_join)
  have nj: "?J \<notin> CA" using ca cj by (auto simp: attrs_ok_def)
  have sj: "set ?J \<subseteq> set ''___'' \<union> \<Union> (set ` set ks)" by (rule set_join)
  have nd: "CHR ''.'' \<notin> set ?k" using sj cs by auto
  have nh: "CHR ''#'' \<notin> set ?k" using sj cs by auto
  have i: "to_internal_key CA (Tup ks) = Inr ?k"
    using len nk nd by (simp add: to_internal_key_def str_replace_id)
  have ck: "contains ''___'' ?k"
  proof -
    obtain ps ss where "?J = ps @ ''___'' @ ss" using cj contains_iff by blast
    then have "?k = (CHR ''<'' # ps) @ ''___'' @ (ss @ ''>'')" by simp
    then show ?thesis using contains_iff by blast
  qed
  have sp: "split ''___'' ?J = Inr ks"
    using split_join[of ks "[]"] kne cs us by (simp add: split_def)
  have "to_external_key CA ?k = Inr (Tup ks)"
    unfolding to_external_key_def str_replace_id[OF nh]
    using nj ck sp by (simp add: slice_wrap Let_def)
  then show ?thesis using i by simp
qed

lemma key_internal_external:
  assumes "attrs_ok CA" "roundtrip_key key"
  shows "\<exists>ik. to_internal_key CA key = Inr ik \<and> to_external_key CA ik = Inr key"
proof (cases key)
  case (Str s)
  then show ?thesis using assms(2) internal_str[of s CA] by (simp add: roundtrip_key_def)
next
  case (Tup ks)
  then show ?thesis using assms internal_tup[of CA ks] by (simp add: roundtrip_key_def)
qed

lemma keys_after_setitem:
  assumes "f ik = Inr key" "map_result f (map fst d) = Inr ks"
  shows "\<exists>ks'. map_result f (map fst (odict_set d ik p)) = Inr ks' \<and> key \<in> set ks'"
  using assms(2)
proof (induction d arbitrary: ks)
  case Nil
  then show ?case using assms(1) by simp
next
  case (Cons kv d)
  obtain k v where kv: "kv = (k, v)" by (cases kv)
  from Cons.prems obtain y ys where y: "f k = Inr y" and ys: "map_result f (map fst d) = Inr ys"
    by (auto simp: kv split: sum.splits)
  show ?case
  proof (cases "k = ik")
    case True
    then show ?thesis using assms(1) ys by (simp add: kv)
  next
    case False
    from Cons.IH[OF ys] obtain ks' where
      "map_result f (map fst (odict_set d ik p)) = Inr ks'" "key \<in> set ks'" by blast
    then show ?thesis using False y by (simp add: kv)
  qed
qed

lemma items_after_setitem:
  assumes "f ik = Inr key"
    and "map_result (\<lambda>(k, v). case f k of Inl e \<Rightarrow> Inl e | Inr k' \<Rightarrow> Inr (k', v)) d = Inr its"
  shows "\<exists>its'. map_result (\<lambda>(k, v). case f k of Inl e \<Rightarrow> Inl e | Inr k' \<Rightarrow> Inr (k', v))
                   (odict_set d ik p) = Inr its' \<and> (key, p) \<in> set its'"
  using assms(2)
proof (induction d arbitrary: its)
  case Nil
  then show ?case using assms(1) by simp
next
  case (Cons kv d)
  obtain k v where kv: "kv = (k, v)" by (cases kv)
  let ?g = "\<lambda>(k, v). case f k of Inl e \<Rightarrow> Inl e | Inr k' \<Rightarrow> Inr (k', v)"
  from Cons.prems obtain y ys where y: "f k = Inr y" and ys: "map_result ?g d = Inr ys"
    by (auto simp: kv split: sum.splits)
  show ?case
  proof (cases "k = ik")
    case True
    then show ?thesis using assms(1) ys by (simp add: kv)
  next
    case False
    from Cons.IH[OF ys] obtain its' where
      "map_result ?g (odict_set d ik p) = Inr its'" "(key, p) \<in> set its'" by blast
    then show ?thesis using False y by (simp add: kv)
  qed
qed

lemma keys_items_defined:
  "map_result f (map fst d) = Inr ks \<Longrightarrow>
   \<exists>its. map_result (\<lambda>(k, v). case f k of Inl e \<Rightarrow> Inl e | Inr k' \<Rightarrow> Inr (k', v)) d = Inr its"
  by (induction d arbitrary: ks) (auto split: sum.splits)

text \<open>
  C9 (amended). Provided no attribute name in \<open>CLASS_ATTRS\<close> contains \<open><\<close> or
  \<open>___\<close>: for every non-empty string key without \<open>#\<close> that does not both start with
  \<open><\<close> and end with \<open>>\<close>, and for every tuple key of at least two components without
  \<open>.\<close>, \<open>#\<close> and \<open>___\<close> in which no component but the last ends with \<open>_\<close>,
  \<open>to_external_key (to_internal_key key)\<close> is defined and equals \<open>key\<close>; and when
  \<open>keys()\<close> of a dictionary returns, then \<open>__setitem__\<close> with such a key and a value
  that the base class accepts (a layer or \<open>None\<close>) returns, and afterwards both
  \<open>keys()\<close> and \<open>items()\<close> return and report the value under that very key.
\<close>

theorem ParameterDict_key_roundtrip:
  assumes "attrs_ok CLASS_ATTRS" and "roundtrip_key key"
    and "v = Layer l \<or> v = NoneValue"
  shows "(\<exists>ik. to_internal_key CLASS_ATTRS key = Inr ik \<and> to_external_key CLASS_ATTRS ik = Inr key)
    \<and> (ParameterDict_keys CLASS_ATTRS d = Inr ks \<longrightarrow>
         (\<exists>d' ks' its'. ParameterDict_setitem CLASS_ATTRS d key v = Inr d'
             \<and> ParameterDict_keys CLASS_ATTRS d' = Inr ks' \<and> key \<in> set ks'
             \<and> ParameterDict_items CLASS_ATTRS d' = Inr its' \<and> (key, v) \<in> set its'))"
proof -
  obtain ik where ik: "to_internal_key CLASS_ATTRS key = Inr ik"
    and ek: "to_external_key CLASS_ATTRS ik = Inr key"
    using key_internal_external[OF assms(1,2)] by blast
  have st: "LayerDict_setitem d ik v = Inr (odict_set d ik v)"
    using assms(3) by (auto simp: LayerDict_setitem_def)
  have "\<exists>d' ks' its'. ParameterDict_setitem CLASS_ATTRS d key v = Inr d'
             \<and> ParameterDict_keys CLASS_ATTRS d' = Inr ks' \<and> key \<in> set ks'
             \<and> ParameterDict_items CLASS_ATTRS d' = Inr its' \<and> (key, v) \<in> set its'"
    if k: "ParameterDict_keys CLASS_ATTRS d = Inr ks"
  proof -
    have m: "map_result (to_external_key CLASS_ATTRS) (map fst d) = Inr ks"
      using k by (simp add: ParameterDict_keys_def)
    obtain its where its: "ParameterDict_items CLASS_ATTRS d = Inr its"
      using keys_items_defined[OF m] by (auto simp: ParameterDict_items_def)
    obtain ks' where "ParameterDict_keys CLASS_ATTRS (odict_set d ik v) = Inr ks'" "key \<in> set ks'"
      using keys_after_setitem[OF ek m] by (auto simp: ParameterDict_keys_def)
    moreover obtain its' where
      "ParameterDict_items CLASS_ATTRS (odict_set d ik v) = Inr its'" "(key, v) \<in> set its'"
      using items_after_setitem[OF ek its[unfolded ParameterDict_items_def]]
      by (auto simp: ParameterDict_items_def)
    ultimately show ?thesis by (simp add: ParameterDict_setitem_def ik st)
  qed
  then show ?thesis using ik ek by blast
qed

theorem ParameterDict_key_roundtrip_witness:
  "attrs_ok example_attrs \<and> roundtrip_key (Tup [''author'', ''writes'', ''paper''])
   \<and> ParameterDict_keys example_attrs [(''lin.weight'', Layer (1 :: nat) :: (nat, nat) stored)]
       = Inr [Str ''lin.weight'']
   \<and> (\<exists>ik. to_internal_key example_attrs (Tup [''author'', ''writes'', ''paper'']) = Inr ik
          \<and> to_external_key example_attrs ik = Inr (Tup [''author'', ''writes'', ''paper'']))
   \<and> (\<exists>d' ks' its'.
          ParameterDict_setitem example_attrs [(''lin.weight'', Layer (1 :: nat) :: (nat, nat) stored)]
            (Tup [''author'', ''writes'', ''paper'']) (Layer 2) = Inr d'
          \<and> ParameterDict_keys example_attrs d' = Inr ks' \<and> Tup [''author'', ''writes'', ''paper''] \<in> set ks'
          \<and> ParameterDict_items example_attrs d' = Inr its'
          \<and> (Tup [''author'', ''writes'', ''paper''], Layer 2) \<in> set its')"
proof -
  let ?d = "[(''lin.weight'', Layer (1 :: nat) :: (nat, nat) stored)]"
  have a: "attrs_ok example_attrs"
    by (simp add: attrs_ok_def example_attrs_def)
  have r: "roundtrip_key (Tup [''author'', ''writes'', ''paper''])"
    by (simp add: roundtrip_key_def)
  have k: "ParameterDict_keys example_attrs ?d = Inr [Str ''lin.weight'']"
    by (simp add: ParameterDict_keys_def to_external_key_def str_replace_def slice_1_m1_def
        example_attrs_def)
  have v: "(Layer 2 :: (nat, nat) stored) = Layer 2 \<or> (Layer 2 :: (nat, nat) stored) = NoneValue"
    by simp
  show ?thesis
    using a r k ParameterDict_key_roundtrip[OF a r v, of ?d "[Str ''lin.weight'']"]
    by blast
qed

text \<open>
  The claim as first stated fails at the empty string, where \<open>to_external_key\<close> raises
  \<open>IndexError\<close>, and at the tuple \<open>('a_', 'b')\<close>, which comes back as \<open>('a', '_b')\<close>.
  And a parameter cannot be stored at all: \<open>__setitem__\<close> with a parameter raises
  \<open>AssertionError\<close> in the base class, under a key that round-trips.
\<close>

theorem ParameterDict_key_roundtrip_counterexample:
  "to_internal_key example_attrs (Str '''') = Inr ''''
   \<and> to_external_key example_attrs '''' = Inl IndexError
   \<and> \<not> contains ''___'' ''a_'' \<and> \<not> contains ''___'' ''b''
   \<and> to_internal_key example_attrs (Tup [''a_'', ''b'']) = Inr ''<a____b>''
   \<and> to_external_key example_attrs ''<a____b>'' = Inr (Tup [''a'', ''_b''])
   \<and> roundtrip_key (Str ''weight'')
   \<and> ParameterDict_setitem example_attrs ([] :: (nat, nat) LayerDict) (Str ''weight'') (Parameter 1)
       = Inl AssertionError"
  by (simp add: to_internal_key_def to_external_key_def str_replace_def slice_1_m1_def
      example_attrs_def split_def roundtrip_key_def ParameterDict_setitem_def
      LayerDict_setitem_def)

section \<open>Properties of construct_bipartite_edge_index\<close>

lemma bipartite_step_unfold:
  "bipartite_step tei eid dod ead (et, so) (h, eis, eas, b) =
     (case eid et of
        None \<Rightarrow> (h, Inl KeyError)
      | Some adj \<Rightarrow>
     (case dod (et_last et) of
        None \<Rightarrow> (h, Inl KeyError)
      | Some dof \<Rightarrow>
         (let t = shift_edge_index so dof (adj_value tei h adj);
              h3 = h\<lparr>idx_cells := idx_cells h @ [t]\<rparr>;
              n = length (idx_cells h)
          in (case ead of
                None \<Rightarrow> (h3, Inr (eis @ [n], eas, isinstance_SparseTensor adj))
              | Some d \<Rightarrow>
                 (case attr_lookup d et of
                    None \<Rightarrow> (h3, Inl KeyError)
                  | Some v \<Rightarrow>
                     if length (rows (attr_cells h ! v)) \<noteq> length t
                     then (case expand (attr_cells h ! v) (length t) of
                             Inl e \<Rightarrow> (h3, Inl e)
                           | Inr t' \<Rightarrow>
                               (h3\<lparr>attr_cells := attr_cells h @ [t']\<rparr>,
                                Inr (eis @ [n], eas @ [length (attr_cells h)], isinstance_SparseTensor adj)))
                     else (h3, Inr (eis @ [n], eas @ [v], isinstance_SparseTensor adj)))))))"
proof -
  have sh: "map (\<lambda>(r, c). (r, c + dof)) (map (\<lambda>(r, c). (r + so, c)) t) = shift_edge_index so dof t"
    for dof :: 'a and t
    by (simp add: shift_edge_index_def case_prod_unfold)
  have cell: "iadd_row1 (iadd_row0 (h\<lparr>idx_cells := idx_cells h @ [t]\<rparr>) (length (idx_cells h)) so)
                (length (idx_cells h)) dof
              = h\<lparr>idx_cells := idx_cells h @ [shift_edge_index so dof t]\<rparr>"
    for dof :: 'a and t
    using sh[of dof t] by (simp add: iadd_row0_def iadd_row1_def del: map_map)
  show ?thesis
    unfolding bipartite_step_def
    by (cases "eid et"; cases "dod (et_last et)"; cases ead)
       (auto simp: Let_def clone_def alloc_idx_def alloc_attr_def adj_value_def cell
             shift_edge_index_def
             split: adj.splits option.splits sum.splits)
qed

lemma extends_refl: "extends h h"
  by (simp add: extends_def)

lemma extends_trans: "extends h h' \<Longrightarrow> extends h' h'' \<Longrightarrow> extends h h''"
  by (auto simp: extends_def)

lemma extends_idx: "extends h h' \<Longrightarrow> a < length (idx_cells h) \<Longrightarrow> idx_cells h' ! a = idx_cells h ! a"
  by (auto simp: extends_def prefix_def nth_append)

lemma extends_attr: "extends h h' \<Longrightarrow> a < length (attr_cells h) \<Longrightarrow> attr_cells h' ! a = attr_cells h ! a"
  by (auto simp: extends_def prefix_def nth_append)

lemma extends_idx_len: "extends h h' \<Longrightarrow> length (idx_cells h) \<le> length (idx_cells h')"
  by (auto simp: extends_def prefix_def)

lemma extends_attr_len: "extends h h' \<Longrightarrow> length (attr_cells h) \<le> length (attr_cells h')"
  by (auto simp: extends_def prefix_def)

lemma bipartite_step_extends:
  "bipartite_step tei eid dod ead item (h, st) = (h', r) \<Longrightarrow> extends h h'"
proof -
  obtain et so where item: "item = (et, so)" by (cases item)
  obtain eis eas b where st: "st = (eis, eas, b)" by (cases st) auto
  show "bipartite_step tei eid dod ead item (h, st) = (h', r) \<Longrightarrow> extends h h'"
    unfolding item st bipartite_step_unfold
    by (auto simp: extends_def Let_def split: option.splits if_splits sum.splits)
qed

lemma bipartite_loop_extends:
  "bipartite_loop tei eid dod ead items (h, st) = (h', r) \<Longrightarrow> extends h h'"
proof (induction items arbitrary: h st)
  case Nil
  then show ?case by (simp add: extends_refl)
next
  case (Cons item items)
  obtain h1 r1 where s: "bipartite_step tei eid dod ead item (h, st) = (h1, r1)"
    by (cases "bipartite_step tei eid dod ead item (h, st)")
  have e1: "extends h h1" using s by (rule bipartite_step_extends)
  show ?case
  proof (cases r1)
    case (Inl e)
    then show ?thesis using Cons.prems s e1 by simp
  next
    case (Inr st1)
    then have "bipartite_loop tei eid dod ead items (h1, st1) = (h', r)"
      using Cons.prems s by simp
    then have "extends h1 h'" by (rule Cons.IH)
    then show ?thesis using e1 extends_trans by blast
  qed
qed

lemma alloc_idx_extends: "alloc_idx h t = (h', a) \<Longrightarrow> extends h h'"
  by (auto simp: alloc_idx_def extends_def)

lemma alloc_attr_extends: "alloc_attr h t = (h', a) \<Longrightarrow> extends h h'"
  by (auto simp: alloc_attr_def extends_def)

lemma construct_extends:
  assumes "construct_bipartite_edge_index tei h eid sod dod ead nn = (h', r)"
  shows "extends h h'"
proof -
  obtain h1 r1 where l: "bipartite_loop tei eid dod ead sod (h, [], [], False) = (h1, r1)"
    by (cases "bipartite_loop tei eid dod ead sod (h, [], [], False)")
  have e1: "extends h h1" using l by (rule bipartite_loop_extends)
  have "extends h1 h'"
    using assms unfolding construct_bipartite_edge_index_def l
    by (auto simp: extends_def alloc_idx_def alloc_attr_def Let_def
          split: sum.splits option.splits if_splits prod.splits)
  then show ?thesis using e1 extends_trans by blast
qed

text \<open>
  C10. \<open>construct_bipartite_edge_index\<close> does not change its inputs: whatever the call
  returns or raises, every tensor that existed before the call (in particular every
  tensor referred to by \<open>edge_index_dict\<close> and \<open>edge_attr_dict\<close>) holds the same values
  afterwards. The offsets are added to the clone, which is a new object.
\<close>

theorem construct_bipartite_edge_index_frame:
  assumes "construct_bipartite_edge_index to_edge_index h edge_index_dict src_offset_dict
             dst_offset_dict edge_attr_dict nnodes = (h', r)"
  shows "(\<forall>a < length (idx_cells h). idx_cells h' ! a = idx_cells h ! a)
       \<and> (\<forall>a < length (attr_cells h). attr_cells h' ! a = attr_cells h ! a)"
  using construct_extends[OF assms] extends_idx extends_attr by blast

lemma rows_expand: "expand v E = Inr t \<Longrightarrow> length (rows v) \<noteq> E \<Longrightarrow> t = expanded v E"
  by (auto simp: expand_def expanded_def split: if_splits)

lemma length_shift [simp]: "length (shift_edge_index so dof t) = length t"
  by (simp add: shift_edge_index_def)

lemma bipartite_step_dense:
  assumes s: "bipartite_step tei eid dod ead (et, so) (h, eis, eas, b) = (h1, Inr (eis1, eas1, b1))"
    and e: "eid et = Some (Dense a0)" and d: "dod (et_last et) = Some dof"
    and l: "\<forall>d. ead = Some d \<longrightarrow> attr_lookup d et = Some v \<and> v < length (attr_cells h)"
  shows "eis1 = eis @ [length (idx_cells h)]"
    and "idx_cells h1 = idx_cells h @ [shift_edge_index so dof (idx_cells h ! a0)]"
    and "\<not> b1"
    and "ead = None \<Longrightarrow> eas1 = eas"
    and "ead \<noteq> None \<Longrightarrow> \<exists>w. eas1 = eas @ [w] \<and> w < length (attr_cells h1)
            \<and> attr_cells h1 ! w = expanded (attr_cells h ! v) (length (idx_cells h ! a0))"
proof -
  show "eis1 = eis @ [length (idx_cells h)]"
    using s l unfolding bipartite_step_unfold e d
    by (auto simp: Let_def adj_value_def split: option.splits if_splits sum.splits)
  show "idx_cells h1 = idx_cells h @ [shift_edge_index so dof (idx_cells h ! a0)]"
    using s l unfolding bipartite_step_unfold e d
    by (auto simp: Let_def adj_value_def split: option.splits if_splits sum.splits)
  show "\<not> b1"
    using s l unfolding bipartite_step_unfold e d
    by (auto simp: Let_def adj_value_def split: option.splits if_splits sum.splits)
  show "ead = None \<Longrightarrow> eas1 = eas"
    using s l unfolding bipartite_step_unfold e d
    by (auto simp: Let_def adj_value_def split: option.splits if_splits sum.splits)
  show "\<exists>w. eas1 = eas @ [w] \<and> w < length (attr_cells h1)
            \<and> attr_cells h1 ! w = expanded (attr_cells h ! v) (length (idx_cells h ! a0))"
    if ne: "ead \<noteq> None"
  proof -
    obtain dd where dd: "ead = Some dd" using ne by auto
    then have lk: "attr_lookup dd et = Some v" and vl: "v < length (attr_cells h)" using l by auto
    show ?thesis
    proof (cases "length (rows (attr_cells h ! v)) \<noteq> length (idx_cells h ! a0)")
      case True
      then obtain t' where ex: "expand (attr_cells h ! v) (length (idx_cells h ! a0)) = Inr t'"
        and r: "h1 = h\<lparr>idx_cells := idx_cells h @ [shift_edge_index so dof (idx_cells h ! a0)],
                      attr_cells := attr_cells h @ [t']\<rparr>"
        and ea: "eas1 = eas @ [length (attr_cells h)]"
        using s unfolding bipartite_step_unfold e d dd
        by (auto simp: Let_def adj_value_def lk split: sum.splits)
      have "t' = expanded (attr_cells h ! v) (length (idx_cells h ! a0))"
        using rows_expand[OF ex True] .
      then show ?thesis using r ea by simp
    next
      case False
      then have r: "attr_cells h1 = attr_cells h" and ea: "eas1 = eas @ [v]"
        using s unfolding bipartite_step_unfold e d dd
        by (auto simp: Let_def adj_value_def lk)
      show ?thesis using False r ea vl by (simp add: expanded_def)
    qed
  qed
qed

lemma bipartite_loop_dense:
  assumes "bipartite_loop tei eid dod ead items (h, eis, eas, b) = (h', Inr (eis', eas', b'))"
    and "\<forall>(et, so) \<in> set items. eid et = Some (Dense (a_of et)) \<and> a_of et < length (idx_cells h)
            \<and> dod (et_last et) = Some (d_of et)"
    and "\<forall>d. ead = Some d \<longrightarrow>
            (\<forall>(et, so) \<in> set items. attr_lookup d et = Some (v_of et) \<and> v_of et < length (attr_cells h))"
    and "\<forall>a \<in> set eis. a < length (idx_cells h)"
    and "\<forall>a \<in> set eas. a < length (attr_cells h)"
    and "\<not> b"
  shows "map (\<lambda>a. idx_cells h' ! a) eis' =
           map (\<lambda>a. idx_cells h ! a) eis
           @ map (\<lambda>(et, so). shift_edge_index so (d_of et) (idx_cells h ! a_of et)) items
       \<and> (ead = None \<longrightarrow> eas' = eas)
       \<and> (ead \<noteq> None \<longrightarrow> map (\<lambda>a. attr_cells h' ! a) eas' =
             map (\<lambda>a. attr_cells h ! a) eas
             @ map (\<lambda>(et, so). expanded (attr_cells h ! v_of et) (length (idx_cells h ! a_of et))) items)
       \<and> \<not> b'"
  using assms
proof (induction items arbitrary: h eis eas b)
  case Nil
  then show ?case by simp
next
  case (Cons item items)
  obtain et so where item: "item = (et, so)" by (cases item)
  obtain h1 r1 where s: "bipartite_step tei eid dod ead (et, so) (h, eis, eas, b) = (h1, r1)"
    by (cases "bipartite_step tei eid dod ead (et, so) (h, eis, eas, b)")
  from Cons.prems(1) s obtain eis1 eas1 b1 where r1: "r1 = Inr (eis1, eas1, b1)"
    and lp: "bipartite_loop tei eid dod ead items (h1, eis1, eas1, b1) = (h', Inr (eis', eas', b'))"
    by (cases r1) (auto simp: item)
  have e: "eid et = Some (Dense (a_of et))" and al: "a_of et < length (idx_cells h)"
    and d: "dod (et_last et) = Some (d_of et)"
    using Cons.prems(2) by (auto simp: item)
  have l: "\<forall>d. ead = Some d \<longrightarrow> attr_lookup d et = Some (v_of et) \<and> v_of et < length (attr_cells h)"
    using Cons.prems(3) by (auto simp: item)
  note sd = bipartite_step_dense[OF s[unfolded r1] e d l]
  have ext: "extends h h1" using s by (rule bipartite_step_extends)
  have il: "length (idx_cells h) \<le> length (idx_cells h1)" using ext by (rule extends_idx_len)
  have atl: "length (attr_cells h) \<le> length (attr_cells h1)" using ext by (rule extends_attr_len)
  have p2: "\<forall>(et, so) \<in> set items. eid et = Some (Dense (a_of et)) \<and> a_of et < length (idx_cells h1)
            \<and> dod (et_last et) = Some (d_of et)"
    using Cons.prems(2) il by fastforce
  have p3: "\<forall>d. ead = Some d \<longrightarrow>
            (\<forall>(et, so) \<in> set items. attr_lookup d et = Some (v_of et) \<and> v_of et < length (attr_cells h1))"
    using Cons.prems(3) atl by fastforce
  have p4: "\<forall>a \<in> set eis1. a < length (idx_cells h1)"
    using Cons.prems(4) sd(1) sd(2) by auto
  have p5: "\<forall>a \<in> set eas1. a < length (attr_cells h1)"
  proof (cases ead)
    case None
    then show ?thesis using sd(4) Cons.prems(5) atl by fastforce
  next
    case (Some dd)
    then obtain w where "eas1 = eas @ [w]" "w < length (attr_cells h1)" using sd(5) by auto
    then show ?thesis using Cons.prems(5) atl by fastforce
  qed
  note IH = Cons.IH[OF lp p2 p3 p4 p5 sd(3)]
  have old_idx: "map (\<lambda>a. idx_cells h1 ! a) eis = map (\<lambda>a. idx_cells h ! a) eis"
    using Cons.prems(4) extends_idx[OF ext] by simp
  have new_idx: "idx_cells h1 ! length (idx_cells h) = shift_edge_index so (d_of et) (idx_cells h ! a_of et)"
    using sd(2) by simp
  have items_idx: "map (\<lambda>(et, so). shift_edge_index so (d_of et) (idx_cells h1 ! a_of et)) items
                 = map (\<lambda>(et, so). shift_edge_index so (d_of et) (idx_cells h ! a_of et)) items"
    using Cons.prems(2) extends_idx[OF ext] by (intro map_cong) auto
  have c1: "map (\<lambda>a. idx_cells h' ! a) eis' =
           map (\<lambda>a. idx_cells h ! a) eis
           @ map (\<lambda>(et, so). shift_edge_index so (d_of et) (idx_cells h ! a_of et)) (item # items)"
    using IH old_idx new_idx items_idx sd(1) by (simp add: item)
  have c2: "ead = None \<longrightarrow> eas' = eas" using IH sd(4) by simp
  have c3: "map (\<lambda>a. attr_cells h' ! a) eas' =
             map (\<lambda>a. attr_cells h ! a) eas
             @ map (\<lambda>(et, so). expanded (attr_cells h ! v_of et) (length (idx_cells h ! a_of et))) (item # items)"
    if ne: "ead \<noteq> None"
  proof -
    obtain w where w: "eas1 = eas @ [w]" "w < length (attr_cells h1)"
      "attr_cells h1 ! w = expanded (attr_cells h ! v_of et) (length (idx_cells h ! a_of et))"
      using sd(5)[OF ne] by blast
    have old_attr: "map (\<lambda>a. attr_cells h1 ! a) eas = map (\<lambda>a. attr_cells h ! a) eas"
      using Cons.prems(5) extends_attr[OF ext] by simp
    have items_attr:
      "map (\<lambda>(et, so). expanded (attr_cells h1 ! v_of et) (length (idx_cells h1 ! a_of et))) items
       = map (\<lambda>(et, so). expanded (attr_cells h ! v_of et) (length (idx_cells h ! a_of et))) items"
    proof (rule map_cong[OF refl])
      fix x assume x: "x \<in> set items"
      obtain et' so' where xe: "x = (et', so')" by (cases x)
      obtain dd where "ead = Some dd" using ne by auto
      then have "a_of et' < length (idx_cells h)" "v_of et' < length (attr_cells h)"
        using Cons.prems(2,3) x xe by auto
      then show "(case x of (et, so) \<Rightarrow> expanded (attr_cells h1 ! v_of et) (length (idx_cells h1 ! a_of et)))
               = (case x of (et, so) \<Rightarrow> expanded (attr_cells h ! v_of et) (length (idx_cells h ! a_of et)))"
        by (simp add: xe extends_idx[OF ext] extends_attr[OF ext])
    qed
    show ?thesis using IH ne w old_attr items_attr by (simp add: item)
  qed
  show ?case using c1 c2 c3 IH by blast
qed

lemma bipartite_loop_defined:
  assumes "\<forall>(et, so) \<in> set items. eid et = Some (Dense (a_of et)) \<and> a_of et < length (idx_cells h)
            \<and> dod (et_last et) = Some (d_of et)"
    and "\<forall>d. ead = Some d \<longrightarrow>
            (\<forall>(et, so) \<in> set items. attr_lookup d et = Some (v_of et) \<and> v_of et < length (attr_cells h)
               \<and> (length (rows (attr_cells h ! v_of et)) = length (idx_cells h ! a_of et)
                    \<or> length (rows (attr_cells h ! v_of et)) = 1))"
  shows "\<exists>h' eis' eas' b'. bipartite_loop tei eid dod ead items (h, eis, eas, b) = (h', Inr (eis', eas', b'))"
  using assms
proof (induction items arbitrary: h eis eas b)
  case Nil
  then show ?case by simp
next
  case (Cons item items)
  obtain et so where item: "item = (et, so)" by (cases item)
  have e: "eid et = Some (Dense (a_of et))" and d: "dod (et_last et) = Some (d_of et)"
    using Cons.prems(1) by (auto simp: item)
  have "\<exists>h1 st1. bipartite_step tei eid dod ead (et, so) (h, eis, eas, b) = (h1, Inr st1)"
  proof (cases ead)
    case None
    show ?thesis unfolding bipartite_step_unfold by (auto simp: Let_def e d None)
  next
    case (Some dd)
    then have lk: "attr_lookup dd et = Some (v_of et)"
      and sz: "length (rows (attr_cells h ! v_of et)) = length (idx_cells h ! a_of et)
                    \<or> length (rows (attr_cells h ! v_of et)) = 1"
      using Cons.prems(2) by (auto simp: item)
    show ?thesis unfolding bipartite_step_unfold using sz
      by (auto simp: Let_def e d Some lk adj_value_def expand_def)
  qed
  then obtain h1 st1 where s: "bipartite_step tei eid dod ead (et, so) (h, eis, eas, b) = (h1, Inr st1)"
    by blast
  obtain eis1 eas1 b1 where st1: "st1 = (eis1, eas1, b1)" by (cases st1) auto
  have ext: "extends h h1" using s by (rule bipartite_step_extends)
  have il: "length (idx_cells h) \<le> length (idx_cells h1)" using ext by (rule extends_idx_len)
  have atl: "length (attr_cells h) \<le> length (attr_cells h1)" using ext by (rule extends_attr_len)
  have p1: "\<forall>(et, so) \<in> set items. eid et = Some (Dense (a_of et)) \<and> a_of et < length (idx_cells h1)
            \<and> dod (et_last et) = Some (d_of et)"
    using Cons.prems(1) il by fastforce
  have p2: "\<forall>d. ead = Some d \<longrightarrow>
            (\<forall>(et, so) \<in> set items. attr_lookup d et = Some (v_of et) \<and> v_of et < length (attr_cells h1)
               \<and> (length (rows (attr_cells h1 ! v_of et)) = length (idx_cells h1 ! a_of et)
                    \<or> length (rows (attr_cells h1 ! v_of et)) = 1))"
  proof (intro allI impI ballI)
    fix dd x assume dd: "ead = Some dd" and x: "x \<in> set items"
    obtain et' so' where xe: "x = (et', so')" by (cases x)
    have a: "a_of et' < length (idx_cells h)" using Cons.prems(1) x xe by auto
    have v: "attr_lookup dd et' = Some (v_of et')" "v_of et' < length (attr_cells h)"
      "length (rows (attr_cells h ! v_of et')) = length (idx_cells h ! a_of et')
                    \<or> length (rows (attr_cells h ! v_of et')) = 1"
      using Cons.prems(2) dd x xe by auto
    show "case x of (et, so) \<Rightarrow> attr_lookup dd et = Some (v_of et) \<and> v_of et < length (attr_cells h1)
               \<and> (length (rows (attr_cells h1 ! v_of et)) = length (idx_cells h1 ! a_of et)
                    \<or> length (rows (attr_cells h1 ! v_of et)) = 1)"
      using v atl by (simp add: xe extends_idx[OF ext a] extends_attr[OF ext v(2)])
  qed
  from Cons.IH[OF p1 p2, of eis1 eas1 b1] obtain h' eis' eas' b' where
    "bipartite_loop tei eid dod ead items (h1, eis1, eas1, b1) = (h', Inr (eis', eas', b'))" by blast
  then show ?case using s by (simp add: item st1)
qed

lemma width_expanded [simp]: "width (expanded v E) = width v"
  by (simp add: expanded_def)

text \<open>
  C3. Let every edge type of \<open>src_offset_dict\<close> have a dense edge index (at address
  \<open>a_of et\<close>), a destination offset \<open>d_of et\<close> and, when \<open>edge_attr_dict\<close> is given, an
  attribute (at address \<open>v_of et\<close>). Whenever the function returns, the returned edge
  index is the column-wise concatenation, in the order of \<open>src_offset_dict\<close>, of each
  type's edge index with row 0 increased by the type's source offset and row 1 by the
  offset of its destination node type; and the returned attribute is absent when no
  \<open>edge_attr_dict\<close> is given and otherwise the row-wise concatenation, in the same order,
  of the attributes, one whose first dimension differs from the edge count being
  expanded to it first. The function does return when \<open>src_offset_dict\<close> is not empty
  and, with attributes given, they have one common width and each has as many rows as
  its type has edges, or one row.
\<close>

theorem construct_bipartite_edge_index_dense:
  assumes dense: "\<forall>(et, so) \<in> set src_offset_dict.
            edge_index_dict et = Some (Dense (a_of et)) \<and> a_of et < length (idx_cells h)
            \<and> dst_offset_dict (et_last et) = Some (d_of et)"
    and attrs: "\<forall>d. edge_attr_dict = Some d \<longrightarrow>
            (\<forall>(et, so) \<in> set src_offset_dict.
               attr_lookup d et = Some (v_of et) \<and> v_of et < length (attr_cells h))"
  shows "(construct_bipartite_edge_index to_edge_index h edge_index_dict src_offset_dict
            dst_offset_dict edge_attr_dict nnodes = (h', Inr (out, edge_attr)) \<longrightarrow>
            (\<exists>a. out = DenseOut a
               \<and> idx_cells h' ! a =
                   concat (map (\<lambda>(et, so). shift_edge_index so (d_of et) (idx_cells h ! a_of et))
                             src_offset_dict))
          \<and> (edge_attr_dict = None \<longrightarrow> edge_attr = None)
          \<and> (edge_attr_dict \<noteq> None \<longrightarrow>
               (\<exists>b. edge_attr = Some b
                  \<and> rows (attr_cells h' ! b) =
                      concat (map (\<lambda>(et, so). rows (expanded (attr_cells h ! v_of et)
                                                     (length (idx_cells h ! a_of et))))
                                src_offset_dict))))
       \<and> (src_offset_dict \<noteq> []
          \<and> (\<forall>d. edge_attr_dict = Some d \<longrightarrow>
                (\<forall>(et, so) \<in> set src_offset_dict.
                   width (attr_cells h ! v_of et) = F
                   \<and> (length (rows (attr_cells h ! v_of et)) = length (idx_cells h ! a_of et)
                        \<or> length (rows (attr_cells h ! v_of et)) = 1))) \<longrightarrow>
          (\<exists>h'' out' edge_attr'.
             construct_bipartite_edge_index to_edge_index h edge_index_dict src_offset_dict
               dst_offset_dict edge_attr_dict nnodes = (h'', Inr (out', edge_attr'))))"
proof -
  let ?run = "construct_bipartite_edge_index to_edge_index h edge_index_dict src_offset_dict
            dst_offset_dict edge_attr_dict nnodes"
  let ?loop = "bipartite_loop to_edge_index edge_index_dict dst_offset_dict edge_attr_dict
             src_offset_dict (h, [], [], False)"
  let ?shifted = "map (\<lambda>(et, so). shift_edge_index so (d_of et) (idx_cells h ! a_of et)) src_offset_dict"
  let ?exp = "map (\<lambda>(et, so). expanded (attr_cells h ! v_of et) (length (idx_cells h ! a_of et)))
                src_offset_dict"
  have loop_vals: "map (\<lambda>a. idx_cells h1 ! a) eis = ?shifted \<and> (edge_attr_dict = None \<longrightarrow> eas = [])
       \<and> (edge_attr_dict \<noteq> None \<longrightarrow> map (\<lambda>a. attr_cells h1 ! a) eas = ?exp) \<and> \<not> b"
    if "?loop = (h1, Inr (eis, eas, b))" for h1 eis eas b
    using bipartite_loop_dense[OF that dense attrs] by simp
  have A: "(\<exists>a. out = DenseOut a \<and> idx_cells h' ! a = concat ?shifted)
          \<and> (edge_attr_dict = None \<longrightarrow> edge_attr = None)
          \<and> (edge_attr_dict \<noteq> None \<longrightarrow>
               (\<exists>b. edge_attr = Some b \<and> rows (attr_cells h' ! b) = concat (map rows ?exp)))"
    if run: "?run = (h', Inr (out, edge_attr))"
  proof -
    obtain h1 r1 where l: "?loop = (h1, r1)" by (cases ?loop)
    obtain eis eas b where r1: "r1 = Inr (eis, eas, b)"
      using run unfolding construct_bipartite_edge_index_def l
      by (cases r1) auto
    note lv = loop_vals[OF l[unfolded r1]]
    show ?thesis
    proof (cases edge_attr_dict)
      case None
      then show ?thesis
        using run lv unfolding construct_bipartite_edge_index_def l r1
        by (auto simp: concat_axis1_def alloc_idx_def split: if_splits)
    next
      case (Some dd)
      then have ea: "map (\<lambda>a. attr_cells h1 ! a) eas = ?exp" using lv by simp
      show ?thesis
        using run lv unfolding construct_bipartite_edge_index_def l r1
        by (auto simp: Some concat_axis1_def concat_axis0_def alloc_idx_def alloc_attr_def ea
              split: if_splits list.splits sum.splits)
    qed
  qed
  have B: "\<exists>h'' out' edge_attr'. ?run = (h'', Inr (out', edge_attr'))"
    if ne: "src_offset_dict \<noteq> []"
      and w: "\<forall>d. edge_attr_dict = Some d \<longrightarrow>
                (\<forall>(et, so) \<in> set src_offset_dict.
                   width (attr_cells h ! v_of et) = F
                   \<and> (length (rows (attr_cells h ! v_of et)) = length (idx_cells h ! a_of et)
                        \<or> length (rows (attr_cells h ! v_of et)) = 1))"
  proof -
    have pre: "\<forall>d. edge_attr_dict = Some d \<longrightarrow>
            (\<forall>(et, so) \<in> set src_offset_dict. attr_lookup d et = Some (v_of et)
               \<and> v_of et < length (attr_cells h)
               \<and> (length (rows (attr_cells h ! v_of et)) = length (idx_cells h ! a_of et)
                    \<or> length (rows (attr_cells h ! v_of et)) = 1))"
      using attrs w by fastforce
    obtain h1 eis eas b where l: "?loop = (h1, Inr (eis, eas, b))"
      using bipartite_loop_defined[OF dense pre] by blast
    note lv = loop_vals[OF l]
    have sne: "?shifted \<noteq> []" using ne by simp
    show ?thesis
    proof (cases edge_attr_dict)
      case None
      then show ?thesis
        using lv sne unfolding construct_bipartite_edge_index_def l
        by (auto simp: concat_axis1_def alloc_idx_def)
    next
      case (Some dd)
      then have ea: "map (\<lambda>a. attr_cells h1 ! a) eas = ?exp" using lv by simp
      have wF: "\<forall>t \<in> set ?exp. width t = F" using w Some by fastforce
      obtain t ts where ets: "?exp = t # ts" using ne by (cases ?exp) auto
      have "list_all (\<lambda>t'. width t' = width t) ts" using wF ets by (simp add: list_all_iff)
      then have "\<exists>t'. concat_axis0 ?exp = Inr t'" by (simp add: concat_axis0_def ets)
      then show ?thesis
        using lv sne unfolding construct_bipartite_edge_index_def l
        by (auto simp: Some concat_axis1_def alloc_idx_def alloc_attr_def ea)
    qed
  qed
  show ?thesis using A B by (simp add: case_prod_unfold comp_def) blast
qed

lemma ex_run:
  "construct_bipartite_edge_index (\<lambda>_. []) ex_store ex_edge_index_dict ex_src_offset_dict
     ex_dst_offset_dict (Some ex_edge_attr_dict) None
   = (\<lparr>idx_cells = [[(0, 0), (1, 0)], [(0, 1)], [(0, 10), (1, 10)], [(2, 11)],
                      [(0, 10), (1, 10), (2, 11)]],
        attr_cells = [Attr 2 [[1, 2]], Attr 2 [[5, 6]], Attr 2 [[1, 2], [1, 2]],
                      Attr 2 [[1, 2], [1, 2], [5, 6]]]\<rparr>,
      Inr (DenseOut 4, Some 3))"
  by (simp add: construct_bipartite_edge_index_def bipartite_step_def ex_store_def
      ex_edge_index_dict_def ex_src_offset_dict_def ex_dst_offset_dict_def ex_edge_attr_dict_def
      clone_def alloc_idx_def alloc_attr_def iadd_row0_def iadd_row1_def expand_def
      concat_axis0_def concat_axis1_def et_last_def Let_def)

theorem construct_bipartite_edge_index_frame_witness:
  "idx_cells (fst (construct_bipartite_edge_index (\<lambda>_. []) ex_store ex_edge_index_dict
      ex_src_offset_dict ex_dst_offset_dict (Some ex_edge_attr_dict) None)) ! 0 = [(0, 0), (1, 0)]
   \<and> idx_cells (fst (construct_bipartite_edge_index (\<lambda>_. []) ex_store ex_edge_index_dict
      ex_src_offset_dict ex_dst_offset_dict (Some ex_edge_attr_dict) None)) ! 1 = [(0, 1)]
   \<and> attr_cells (fst (construct_bipartite_edge_index (\<lambda>_. []) ex_store ex_edge_index_dict
      ex_src_offset_dict ex_dst_offset_dict (Some ex_edge_attr_dict) None)) ! 0 = Attr 2 [[1, 2]]"
proof -
  let ?run = "construct_bipartite_edge_index (\<lambda>_. []) ex_store ex_edge_index_dict
      ex_src_offset_dict ex_dst_offset_dict (Some ex_edge_attr_dict) None"
  have r: "?run = (fst ?run, snd ?run)" by simp
  note f = construct_bipartite_edge_index_frame[OF r]
  have "idx_cells (fst ?run) ! 0 = idx_cells ex_store ! 0"
    using f[THEN conjunct1, rule_format, of 0] by (simp add: ex_store_def)
  moreover have "idx_cells (fst ?run) ! 1 = idx_cells ex_store ! 1"
    using f[THEN conjunct1, rule_format, of 1] by (simp add: ex_store_def)
  moreover have "attr_cells (fst ?run) ! 0 = attr_cells ex_store ! 0"
    using f[THEN conjunct2, rule_format, of 0] by (simp add: ex_store_def)
  ultimately show ?thesis by (simp add: ex_store_def)
qed

theorem construct_bipartite_edge_index_dense_witness:
  "idx_cells (fst (construct_bipartite_edge_index (\<lambda>_. []) ex_store ex_edge_index_dict
      ex_src_offset_dict ex_dst_offset_dict (Some ex_edge_attr_dict) None)) ! 4
     = [(0, 10), (1, 10), (2, 11)]
   \<and> rows (attr_cells (fst (construct_bipartite_edge_index (\<lambda>_. []) ex_store ex_edge_index_dict
      ex_src_offset_dict ex_dst_offset_dict (Some ex_edge_attr_dict) None)) ! 3)
     = [[1, 2], [1, 2], [5, 6]]
   \<and> (\<exists>h'' out' edge_attr'. construct_bipartite_edge_index (\<lambda>_. []) ex_store ex_edge_index_dict
      ex_src_offset_dict ex_dst_offset_dict (Some ex_edge_attr_dict) None = (h'', Inr (out', edge_attr')))"
proof -
  let ?run = "construct_bipartite_edge_index (\<lambda>_. []) ex_store ex_edge_index_dict
      ex_src_offset_dict ex_dst_offset_dict (Some ex_edge_attr_dict) None"
  have dense: "\<forall>(et, so) \<in> set ex_src_offset_dict.
            ex_edge_index_dict et = Some (Dense (ex_addr et)) \<and> ex_addr et < length (idx_cells ex_store)
            \<and> ex_dst_offset_dict (et_last et) = Some 10"
    by (simp add: ex_src_offset_dict_def ex_edge_index_dict_def ex_addr_def ex_store_def
        ex_dst_offset_dict_def et_last_def)
  have attrs: "\<forall>d. Some ex_edge_attr_dict = Some d \<longrightarrow>
            (\<forall>(et, so) \<in> set ex_src_offset_dict.
               attr_lookup d et = Some (ex_addr et) \<and> ex_addr et < length (attr_cells ex_store))"
    by (simp add: ex_src_offset_dict_def ex_edge_attr_dict_def ex_addr_def ex_store_def)
  have r: "?run = (fst ?run, Inr (DenseOut 4, Some 3))"
    by (simp add: ex_run)
  note t = construct_bipartite_edge_index_dense[of ex_src_offset_dict ex_edge_index_dict ex_addr
      ex_store ex_dst_offset_dict "\<lambda>_. 10" "Some ex_edge_attr_dict" ex_addr "\<lambda>_. []" None
      "fst ?run" "DenseOut 4" "Some 3" 2, OF dense attrs]
  have A: "idx_cells (fst ?run) ! 4 =
             concat (map (\<lambda>(et, so). shift_edge_index so 10 (idx_cells ex_store ! ex_addr et))
                       ex_src_offset_dict)"
    and A2: "rows (attr_cells (fst ?run) ! 3) =
             concat (map (\<lambda>(et, so). rows (expanded (attr_cells ex_store ! ex_addr et)
                                                     (length (idx_cells ex_store ! ex_addr et))))
                                ex_src_offset_dict)"
    using t[THEN conjunct1, rule_format, OF r] by auto
  have B: "\<exists>h'' out' edge_attr'. ?run = (h'', Inr (out', edge_attr'))"
    using t[THEN conjunct2, rule_format]
    by (simp add: ex_src_offset_dict_def ex_addr_def ex_store_def)
  show ?thesis
    using A A2 B
    by (simp add: ex_src_offset_dict_def ex_addr_def ex_store_def shift_edge_index_def expanded_def)
qed

section \<open>Properties of HeteroConv.forward\<close>

lemma args_fold_has:
  "fst (fold (args_step et) ad (has, args))
   = (has \<or> list_ex (\<lambda>vd. vd (EdgeKey et) \<noteq> None) ad)"
proof (induction ad arbitrary: has args)
  case Nil
  then show ?case by simp
next
  case (Cons vd ad)
  obtain src rel dst where et: "et = (src, rel, dst)" by (cases et)
  obtain has' args' where st: "args_step et vd (has, args) = (has', args')"
    by (cases "args_step et vd (has, args)")
  have "has' = (has \<or> vd (EdgeKey et) \<noteq> None)"
    using st unfolding args_step_def et
    by (auto split: option.splits if_splits)
  then show ?case using Cons.IH[of has' args'] by (auto simp: st)
qed

























section \<open>Properties of RootedSubgraph.map\<close>

lemma bnd_Inr [simp]: "bnd (Inr v) f = f v"
  by (simp add: bnd_def)

lemma map_result_Inr: "\<forall>x \<in> set xs. f x = Inr (g x) \<Longrightarrow> map_result f xs = Inr (map g xs)"
  by (induction xs) auto

lemma gather_Inr: "\<forall>i \<in> set idx. i < length xs \<Longrightarrow> gather xs idx = Inr (map (\<lambda>i. xs ! i) idx)"
  unfolding gather_def by (rule map_result_Inr) simp

lemma index_cols_Inr:
  "\<forall>r \<in> set m. \<forall>i \<in> set idx. i < length r \<Longrightarrow>
   index_cols m idx = Inr (map (\<lambda>r. map (\<lambda>i. r ! i) idx) m)"
  unfolding index_cols_def by (rule map_result_Inr) (simp add: gather_Inr)

lemma set_nonzero:
  "set (nonzero m) = {(i, j). i < length m \<and> j < length (m ! i) \<and> m ! i ! j}"
  by (auto simp: nonzero_def)

lemma distinct_concat_pairs:
  "distinct is \<Longrightarrow> (\<And>i. distinct (f i)) \<Longrightarrow> distinct (concat (map (\<lambda>i. map (\<lambda>j. (i, j)) (f i)) is))"
  by (induction "is") (auto simp: distinct_map inj_on_def)

lemma distinct_nonzero: "distinct (nonzero m)"
  unfolding nonzero_def by (rule distinct_concat_pairs) simp_all

lemma index_put_other:
  "index_put m ps vs = Inr m' \<Longrightarrow> (i, j) \<notin> set ps \<Longrightarrow> m' ! i ! j = m ! i ! j"
proof (induction m ps vs rule: index_put.induct)
  case (1 m)
  then show ?case by simp
next
  case (2 m a b ps v vs)
  then have ok: "a < length m" "b < length (m ! a)"
    and r: "index_put (m[a := (m ! a)[b := v]]) ps vs = Inr m'"
    by (auto split: if_splits)
  have ne: "(i, j) \<noteq> (a, b)" and ni: "(i, j) \<notin> set ps" using 2(3) by auto
  have "m' ! i ! j = (m[a := (m ! a)[b := v]]) ! i ! j" using 2(1) ok r ni by simp
  also have "\<dots> = m ! i ! j" using ne ok by (cases "i = a") auto
  finally show ?case .
qed simp_all

lemma index_put_shape:
  "index_put m ps vs = Inr m' \<Longrightarrow> length m' = length m \<and> (\<forall>i < length m. length (m' ! i) = length (m ! i))"
proof (induction m ps vs rule: index_put.induct)
  case (1 m)
  then show ?case by simp
next
  case (2 m a b ps v vs)
  then have ok: "a < length m" "b < length (m ! a)"
    and r: "index_put (m[a := (m ! a)[b := v]]) ps vs = Inr m'"
    by (auto split: if_splits)
  from 2(1) ok r have "length m' = length (m[a := (m ! a)[b := v]])
     \<and> (\<forall>i < length (m[a := (m ! a)[b := v]]). length (m' ! i) = length ((m[a := (m ! a)[b := v]]) ! i))"
    by simp
  moreover have "length ((m[a := (m ! a)[b := v]]) ! i) = length (m ! i)" if "i < length m" for i
    using that by (cases "i = a") auto
  ultimately show ?case by simp
qed simp_all

lemma index_put_nth:
  "index_put m ps vs = Inr m' \<Longrightarrow> distinct ps \<Longrightarrow> k < length ps \<Longrightarrow>
   m' ! fst (ps ! k) ! snd (ps ! k) = vs ! k"
proof (induction m ps vs arbitrary: k rule: index_put.induct)
  case (1 m)
  then show ?case by simp
next
  case (2 m a b ps v vs)
  then have ok: "a < length m" "b < length (m ! a)"
    and r: "index_put (m[a := (m ! a)[b := v]]) ps vs = Inr m'"
    by (auto split: if_splits)
  show ?case
  proof (cases k)
    case 0
    have "(a, b) \<notin> set ps" using 2(3) by simp
    then have "m' ! a ! b = (m[a := (m ! a)[b := v]]) ! a ! b"
      using index_put_other[OF r] by blast
    then show ?thesis using 0 ok by simp
  next
    case (Suc k')
    then have "k' < length ps" "distinct ps" using 2(3,4) by auto
    then show ?thesis using 2(1) ok r Suc by simp
  qed
qed simp_all

lemma index_put_defined:
  "length ps = length vs \<Longrightarrow> \<forall>(i, j) \<in> set ps. i < length m \<and> j < length (m ! i) \<Longrightarrow>
   \<exists>m'. index_put m ps vs = Inr m'"
proof (induction m ps vs rule: index_put.induct)
  case (1 m)
  then show ?case by simp
next
  case (2 m a b ps v vs)
  have ok: "a < length m" "b < length (m ! a)" using 2(3) by auto
  have "\<forall>(i, j) \<in> set ps. i < length (m[a := (m ! a)[b := v]])
          \<and> j < length ((m[a := (m ! a)[b := v]]) ! i)"
    using 2(3) by (auto simp: nth_list_update)
  then show ?case using 2(1)[OF _ _] 2(2) ok by simp
qed simp_all

lemma concat_nth_uniform:
  "\<forall>r \<in> set m. length r = N \<Longrightarrow> i < length m \<Longrightarrow> j < N \<Longrightarrow>
   i * N + j < length (concat m) \<and> concat m ! (i * N + j) = m ! i ! j"
proof (induction m arbitrary: i)
  case Nil
  then show ?case by simp
next
  case (Cons r m)
  show ?case
  proof (cases i)
    case 0
    then show ?thesis using Cons.prems by (simp add: nth_append)
  next
    case (Suc i')
    then have "i' * N + j < length (concat m) \<and> concat m ! (i' * N + j) = m ! i' ! j"
      using Cons by simp
    then show ?thesis using Suc Cons.prems by (simp add: nth_append)
  qed
qed

lemma length_concat_ge:
  "\<forall>x \<in> set xs. f x \<noteq> [] \<Longrightarrow> length xs \<le> length (concat (map f xs))"
proof (induction xs)
  case Nil
  then show ?case by simp
next
  case (Cons x xs)
  then have "f x \<noteq> []" by simp
  then have "1 \<le> length (f x)" by (cases "f x") auto
  then show ?case using Cons by simp
qed

lemma length_nonzero_ge:
  assumes "\<forall>r \<in> set m. True \<in> set r"
  shows "length m \<le> length (nonzero m)"
proof -
  have "\<forall>i \<in> set [0..<length m].
          map (\<lambda>j. (i, j)) (filter (\<lambda>j. m ! i ! j) [0..<length (m ! i)]) \<noteq> []"
  proof
    fix i assume "i \<in> set [0..<length m]"
    then have i: "i < length m" by simp
    then have "True \<in> set (m ! i)" using assms by simp
    then obtain j where "j < length (m ! i)" "m ! i ! j" by (auto simp: in_set_conv_nth)
    then have "j \<in> set (filter (\<lambda>j. m ! i ! j) [0..<length (m ! i)])" by simp
    then show "map (\<lambda>j. (i, j)) (filter (\<lambda>j. m ! i ! j) [0..<length (m ! i)]) \<noteq> []"
      by (metis empty_iff list.set(1) map_is_Nil_conv)
  qed
  then have "length [0..<length m] \<le> length (nonzero m)"
    unfolding nonzero_def by (rule length_concat_ge)
  then show ?thesis by simp
qed

lemma mat_and_index_cols:
  assumes "\<forall>(u, v) \<in> set ei. u < N \<and> v < N"
  shows "mat_and (map (\<lambda>r. map (\<lambda>i. r ! i) (map fst ei)) m) (map (\<lambda>r. map (\<lambda>i. r ! i) (map snd ei)) m)
         = edge_mask m ei"
proof -
  have "map2 (\<and>) (map (\<lambda>i. r ! i) (map fst ei)) (map (\<lambda>i. r ! i) (map snd ei))
        = map (\<lambda>(u, v). r ! u \<and> r ! v) ei" for r :: "bool list"
    by (induction ei) auto
  then show ?thesis
    by (induction m) (auto simp: mat_and_def edge_mask_def)
qed

lemma row_major_rows:
  assumes "\<And>i. sorted_wrt (<) (f i)"
  shows "row_major (concat (map (\<lambda>i. map (\<lambda>j. (i, j)) (f i)) [0..<n]))
         \<and> (\<forall>p \<in> set (concat (map (\<lambda>i. map (\<lambda>j. (i, j)) (f i)) [0..<n])). fst p < n)"
proof (induction n)
  case 0
  then show ?case by (simp add: row_major_def)
next
  case (Suc n)
  have "sorted_wrt (\<lambda>(i, j) (i', j'). i < i' \<or> (i = i' \<and> j < j')) (map (\<lambda>j. (n, j)) (f n))"
    using assms[of n] by (simp add: sorted_wrt_map)
  then show ?case using Suc
    by (auto simp: row_major_def sorted_wrt_append)
qed

lemma row_major_nonzero: "row_major (nonzero m)"
  unfolding nonzero_def by (rule row_major_rows[THEN conjunct1]) (simp add: sorted_wrt_filter)

lemma edge_mask_nonzero:
  "set (nonzero (edge_mask m ei))
   = {(b, e). b < length m \<and> e < length ei \<and> m ! b ! fst (ei ! e) \<and> m ! b ! snd (ei ! e)}"
  by (auto simp: set_nonzero edge_mask_def case_prod_unfold)

lemma map2_shift:
  "map2 (\<lambda>(u, v) off. (u + off, v + off)) (map (\<lambda>i. ei ! i) (map snd zs)) (map (\<lambda>b. b * N) (map fst zs))
   = map (\<lambda>(b, e). (fst (ei ! e) + b * N, snd (ei ! e) + b * N)) zs"
  by (induction zs) (auto simp: case_prod_unfold)

lemma RootedSubgraph_map_explicit:
  assumes ei: "edge_index data = Some ei" and nn: "num_nodes data = Some N"
    and len: "length n_mask = N"
    and rows: "\<forall>r \<in> set n_mask. length r = N \<and> True \<in> set r"
    and rng: "\<forall>(u, v) \<in> set ei. u < N \<and> v < N"
  shows "\<exists>sub. RootedSubgraph_map data n_mask
           = Inr (sub, map snd (nonzero n_mask), map snd (nonzero (edge_mask n_mask ei)),
                  map fst (nonzero n_mask), map fst (nonzero (edge_mask n_mask ei)))
         \<and> length sub = length (nonzero (edge_mask n_mask ei))
         \<and> (\<forall>t < length (nonzero (edge_mask n_mask ei)).
               fst (sub ! t) < length (nonzero n_mask) \<and> snd (sub ! t) < length (nonzero n_mask)
               \<and> nonzero n_mask ! fst (sub ! t)
                   = (fst (nonzero (edge_mask n_mask ei) ! t),
                      fst (ei ! snd (nonzero (edge_mask n_mask ei) ! t)))
               \<and> nonzero n_mask ! snd (sub ! t)
                   = (fst (nonzero (edge_mask n_mask ei) ! t),
                      snd (ei ! snd (nonzero (edge_mask n_mask ei) ! t))))"
proof -
  let ?nz = "nonzero n_mask"
  let ?ez = "nonzero (edge_mask n_mask ei)"
  let ?nid = "map snd ?nz" and ?nsb = "map fst ?nz"
  let ?eid = "map snd ?ez" and ?esb = "map fst ?ez"
  have rl: "\<And>r. r \<in> set n_mask \<Longrightarrow> length r = N" using rows by simp
  have nzr: "\<And>i j. (i, j) \<in> set ?nz \<Longrightarrow> i < N \<and> j < N"
    using len rl by (auto simp: set_nonzero)
  have ezr: "\<And>b e. (b, e) \<in> set ?ez \<Longrightarrow>
      b < N \<and> e < length ei \<and> n_mask ! b ! fst (ei ! e) \<and> n_mask ! b ! snd (ei ! e)"
    using len by (auto simp: edge_mask_nonzero)
  have c0: "index_cols n_mask (map fst ei) = Inr (map (\<lambda>r. map (\<lambda>i. r ! i) (map fst ei)) n_mask)"
    by (rule index_cols_Inr) (use rng rl in fastforce)
  have c1: "index_cols n_mask (map snd ei) = Inr (map (\<lambda>r. map (\<lambda>i. r ! i) (map snd ei)) n_mask)"
    by (rule index_cols_Inr) (use rng rl in fastforce)
  note em = mat_and_index_cols[OF rng, of n_mask]
  have g1: "gather ei ?eid = Inr (map (\<lambda>i. ei ! i) ?eid)"
    by (rule gather_Inr) (use ezr in fastforce)
  have z: "zip ?nsb ?nid = ?nz" by (simp add: zip_map_fst_snd)
  have "\<exists>nm. index_put (replicate N (replicate N (1 :: nat))) ?nz [0..<length ?nid] = Inr nm"
    by (rule index_put_defined) (use nzr in auto)
  then obtain nm where nm: "index_put (replicate N (replicate N (1 :: nat))) ?nz [0..<length ?nid] = Inr nm"
    by blast
  have nml: "length nm = N" and nmr: "\<And>i. i < N \<Longrightarrow> length (nm ! i) = N"
    using index_put_shape[OF nm] by auto
  have nmrows: "\<forall>r \<in> set nm. length r = N"
    using nml nmr by (auto simp: in_set_conv_nth)
  have nmv: "\<And>k. k < length ?nz \<Longrightarrow> nm ! fst (?nz ! k) ! snd (?nz ! k) = k"
    using index_put_nth[OF nm distinct_nonzero] by simp
  have big: "N \<le> length ?nz" using length_nonzero_ge[of n_mask] rows len by simp
  have g2: "gather (map (\<lambda>a. a * N) [0..<length ?nid]) ?esb
            = Inr (map (\<lambda>i. map (\<lambda>a. a * N) [0..<length ?nid] ! i) ?esb)"
    by (rule gather_Inr) (use ezr big in fastforce)
  have offs: "map (\<lambda>i. map (\<lambda>a. a * N) [0..<length ?nid] ! i) ?esb = map (\<lambda>b. b * N) ?esb"
    using ezr big by (intro map_cong) fastforce+
  let ?sub1 = "map2 (\<lambda>(u, v) off. (u + off, v + off)) (map (\<lambda>i. ei ! i) ?eid) (map (\<lambda>b. b * N) ?esb)"
  have sub1: "?sub1 = map (\<lambda>(b, e). (fst (ei ! e) + b * N, snd (ei ! e) + b * N)) ?ez"
    by (rule map2_shift)
  have pos: "\<exists>k < length ?nz. ?nz ! k = (b, u) \<and> b * N + u < length (concat nm)
                \<and> concat nm ! (b * N + u) = k"
    if "b < N" "u < N" "n_mask ! b ! u" for b u
  proof -
    have "(b, u) \<in> set ?nz" using that len rl by (auto simp: set_nonzero)
    then obtain k where k: "k < length ?nz" "?nz ! k = (b, u)" by (auto simp: in_set_conv_nth)
    have "nm ! b ! u = k" using nmv[OF k(1)] k(2) by simp
    moreover have "b * N + u < length (concat nm) \<and> concat nm ! (b * N + u) = nm ! b ! u"
      by (rule concat_nth_uniform[OF nmrows]) (use that nml in auto)
    ultimately show ?thesis using k by auto
  qed
  have uv: "fst (ei ! e) < N \<and> snd (ei ! e) < N" if "e < length ei" for e
    using rng that by (metis (mono_tags, lifting) case_prod_unfold nth_mem)
  let ?look = "\<lambda>(x, y). (concat nm ! x, concat nm ! y)"
  have g3: "gather2 (concat nm) ?sub1 = Inr (map ?look ?sub1)"
    unfolding gather2_def
  proof (rule map_result_Inr, rule ballI)
    fix p assume "p \<in> set ?sub1"
    then obtain b e where be: "(b, e) \<in> set ?ez"
      and p: "p = (fst (ei ! e) + b * N, snd (ei ! e) + b * N)"
      unfolding sub1 by auto
    from ezr[OF be] uv[of e] pos[of b "fst (ei ! e)"] pos[of b "snd (ei ! e)"]
    have "b * N + fst (ei ! e) < length (concat nm)" "b * N + snd (ei ! e) < length (concat nm)"
      by auto
    then show "(case p of (x, y) \<Rightarrow> if x < length (concat nm) \<and> y < length (concat nm)
                   then Inr (concat nm ! x, concat nm ! y) else Inl IndexError)
               = Inr (?look p)"
      by (simp add: p add.commute)
  qed
  have run: "RootedSubgraph_map data n_mask = Inr (map ?look ?sub1, ?nid, ?eid, ?nsb, ?esb)"
    using c0 c1 em g1 z nm g2[unfolded offs] g3
    unfolding RootedSubgraph_map_def
    by (simp add: ei nn Let_def call_with_def arange_keywords_def)
  have props: "fst (map ?look ?sub1 ! t) < length ?nz \<and> snd (map ?look ?sub1 ! t) < length ?nz
               \<and> ?nz ! fst (map ?look ?sub1 ! t) = (fst (?ez ! t), fst (ei ! snd (?ez ! t)))
               \<and> ?nz ! snd (map ?look ?sub1 ! t) = (fst (?ez ! t), snd (ei ! snd (?ez ! t)))"
    if t: "t < length ?ez" for t
  proof -
    obtain b e where be: "?ez ! t = (b, e)" by (cases "?ez ! t")
    then have mem: "(b, e) \<in> set ?ez" using t by (metis nth_mem)
    note r = ezr[OF mem]
    have s: "map ?look ?sub1 ! t = (concat nm ! (b * N + fst (ei ! e)), concat nm ! (b * N + snd (ei ! e)))"
      unfolding sub1 using t be by (simp add: add.commute)
    obtain k where k: "k < length ?nz" "?nz ! k = (b, fst (ei ! e))"
      "concat nm ! (b * N + fst (ei ! e)) = k"
      using pos[of b "fst (ei ! e)"] r uv[of e] by auto
    obtain k' where k': "k' < length ?nz" "?nz ! k' = (b, snd (ei ! e))"
      "concat nm ! (b * N + snd (ei ! e)) = k'"
      using pos[of b "snd (ei ! e)"] r uv[of e] by auto
    show ?thesis using s k k' be by simp
  qed
  have "length (map ?look ?sub1) = length ?ez" unfolding sub1 by simp
  then show ?thesis using run props by blast
qed

text \<open>
  C5. For a \<open>Data\<close> object whose edge index ranges over its \<open>N\<close> nodes and a boolean
  matrix \<open>n_mask\<close> of shape \<open>[N, N]\<close> in which every row marks at least one node,
  \<open>map\<close> returns. The pairs \<open>(n_sub_batch[k], n_id[k])\<close> are exactly the marked positions
  \<open>(b, v)\<close> of \<open>n_mask\<close>, each once, in row-major order; the pairs
  \<open>(e_sub_batch[t], e_id[t])\<close> are exactly the pairs \<open>(b, e)\<close> of a root \<open>b\<close> and an edge
  \<open>e\<close> whose both endpoints are marked in row \<open>b\<close>, each once, in row-major order. For
  every selected edge position \<open>t\<close> with \<open>b = e_sub_batch[t]\<close>: both endpoints of the
  original edge \<open>edge_index[:, e_id[t]]\<close> are marked in row \<open>b\<close> of \<open>n_mask\<close>, \<open>n_id\<close>
  maps the relabelled endpoints back to the original ones, and \<open>n_sub_batch\<close> of both
  relabelled endpoints is \<open>b\<close>.
\<close>

theorem RootedSubgraph_map_remap:
  assumes "edge_index data = Some ei" and "num_nodes data = Some N"
    and "length n_mask = N"
    and "\<forall>r \<in> set n_mask. length r = N \<and> True \<in> set r"
    and "\<forall>(u, v) \<in> set ei. u < N \<and> v < N"
  shows "\<exists>sub_edge_index n_id e_id n_sub_batch e_sub_batch.
     RootedSubgraph_map data n_mask = Inr (sub_edge_index, n_id, e_id, n_sub_batch, e_sub_batch)
     \<and> length sub_edge_index = length e_id \<and> length e_sub_batch = length e_id
     \<and> length n_sub_batch = length n_id
     \<and> zip n_sub_batch n_id = nonzero n_mask
     \<and> zip e_sub_batch e_id = nonzero (edge_mask n_mask ei)
     \<and> row_major (zip n_sub_batch n_id)
     \<and> set (zip n_sub_batch n_id) = {(b, v). b < N \<and> v < N \<and> n_mask ! b ! v}
     \<and> row_major (zip e_sub_batch e_id)
     \<and> set (zip e_sub_batch e_id)
         = {(b, e). b < N \<and> e < length ei
                    \<and> n_mask ! b ! fst (ei ! e) \<and> n_mask ! b ! snd (ei ! e)}
     \<and> (\<forall>t < length e_id.
          e_id ! t < length ei \<and> e_sub_batch ! t < N
          \<and> n_mask ! (e_sub_batch ! t) ! fst (ei ! (e_id ! t))
          \<and> n_mask ! (e_sub_batch ! t) ! snd (ei ! (e_id ! t))
          \<and> fst (sub_edge_index ! t) < length n_id \<and> snd (sub_edge_index ! t) < length n_id
          \<and> n_id ! fst (sub_edge_index ! t) = fst (ei ! (e_id ! t))
          \<and> n_id ! snd (sub_edge_index ! t) = snd (ei ! (e_id ! t))
          \<and> n_sub_batch ! fst (sub_edge_index ! t) = e_sub_batch ! t
          \<and> n_sub_batch ! snd (sub_edge_index ! t) = e_sub_batch ! t)"
proof -
  let ?nz = "nonzero n_mask"
  let ?ez = "nonzero (edge_mask n_mask ei)"
  obtain sub where run: "RootedSubgraph_map data n_mask
           = Inr (sub, map snd ?nz, map snd ?ez, map fst ?nz, map fst ?ez)"
    and ls: "length sub = length ?ez"
    and pr: "\<And>t. t < length ?ez \<Longrightarrow>
               fst (sub ! t) < length ?nz \<and> snd (sub ! t) < length ?nz
               \<and> ?nz ! fst (sub ! t) = (fst (?ez ! t), fst (ei ! snd (?ez ! t)))
               \<and> ?nz ! snd (sub ! t) = (fst (?ez ! t), snd (ei ! snd (?ez ! t)))"
    using RootedSubgraph_map_explicit[OF assms] by blast
  have per: "map snd ?ez ! t < length ei \<and> map fst ?ez ! t < N
          \<and> n_mask ! (map fst ?ez ! t) ! fst (ei ! (map snd ?ez ! t))
          \<and> n_mask ! (map fst ?ez ! t) ! snd (ei ! (map snd ?ez ! t))
          \<and> fst (sub ! t) < length (map snd ?nz) \<and> snd (sub ! t) < length (map snd ?nz)
          \<and> map snd ?nz ! fst (sub ! t) = fst (ei ! (map snd ?ez ! t))
          \<and> map snd ?nz ! snd (sub ! t) = snd (ei ! (map snd ?ez ! t))
          \<and> map fst ?nz ! fst (sub ! t) = map fst ?ez ! t
          \<and> map fst ?nz ! snd (sub ! t) = map fst ?ez ! t"
    if t: "t < length (map snd ?ez)" for t
  proof -
    have t': "t < length ?ez" using t by simp
    obtain b e where be: "?ez ! t = (b, e)" by (cases "?ez ! t")
    then have "(b, e) \<in> set ?ez" using t' by (metis nth_mem)
    then have r: "b < N" "e < length ei" "n_mask ! b ! fst (ei ! e)" "n_mask ! b ! snd (ei ! e)"
      using assms(3) by (auto simp: edge_mask_nonzero)
    show ?thesis using pr[OF t'] r be t' by simp
  qed
  have lens: "length sub = length (map snd ?ez)" "length (map fst ?ez) = length (map snd ?ez)"
    "length (map fst ?nz) = length (map snd ?nz)"
    using ls by simp_all
  have zn: "zip (map fst ?nz) (map snd ?nz) = ?nz"
    and ze: "zip (map fst ?ez) (map snd ?ez) = ?ez"
    by (simp_all add: zip_map_fst_snd)
  have rn: "row_major (zip (map fst ?nz) (map snd ?nz))"
    and re: "row_major (zip (map fst ?ez) (map snd ?ez))"
    unfolding zn ze by (rule row_major_nonzero)+
  have rl: "\<And>i. i < N \<Longrightarrow> length (n_mask ! i) = N"
    using assms(3,4) by (metis nth_mem)
  have sn: "set (zip (map fst ?nz) (map snd ?nz)) = {(b, v). b < N \<and> v < N \<and> n_mask ! b ! v}"
    unfolding zn set_nonzero using assms(3) rl by auto
  have se: "set (zip (map fst ?ez) (map snd ?ez))
         = {(b, e). b < N \<and> e < length ei
                    \<and> n_mask ! b ! fst (ei ! e) \<and> n_mask ! b ! snd (ei ! e)}"
    unfolding ze edge_mask_nonzero using assms(3) by simp
  show ?thesis
    by (rule exI[of _ sub], rule exI[of _ "map snd ?nz"], rule exI[of _ "map snd ?ez"],
        rule exI[of _ "map fst ?nz"], rule exI[of _ "map fst ?ez"])
       (intro conjI allI impI run lens zn ze rn sn re se per; assumption)
qed

theorem RootedSubgraph_map_remap_witness:
  "RootedSubgraph_map ex_data ex_n_mask
     = Inr ([(0, 1), (1, 0), (2, 3), (3, 2), (3, 4), (4, 3), (5, 6), (6, 5)],
            [0, 1, 0, 1, 2, 1, 2], [0, 1, 0, 1, 2, 3, 2, 3],
            [0, 0, 1, 1, 1, 2, 2], [0, 0, 1, 1, 1, 1, 2, 2])
   \<and> (\<exists>sub_edge_index n_id e_id n_sub_batch e_sub_batch.
        RootedSubgraph_map ex_data ex_n_mask
          = Inr (sub_edge_index, n_id, e_id, n_sub_batch, e_sub_batch)
        \<and> length sub_edge_index = length e_id
        \<and> zip n_sub_batch n_id = nonzero ex_n_mask
        \<and> row_major (zip n_sub_batch n_id) \<and> row_major (zip e_sub_batch e_id)
        \<and> n_id ! fst (sub_edge_index ! 4) = 1 \<and> n_id ! snd (sub_edge_index ! 4) = 2
        \<and> n_sub_batch ! fst (sub_edge_index ! 4) = 1 \<and> e_sub_batch ! 4 = 1)"
proof -
  have a1: "edge_index ex_data = Some [(0, 1), (1, 0), (1, 2), (2, 1)]"
    and a2: "num_nodes ex_data = Some 3"
    by (simp_all add: ex_data_def)
  have a3: "length ex_n_mask = 3"
    and a4: "\<forall>r \<in> set ex_n_mask. length r = 3 \<and> True \<in> set r"
    by (simp_all add: ex_n_mask_def)
  have a5: "\<forall>(u, v) \<in> set [(0, 1), (1, 0), (1, 2), (2, 1)]. u < (3 :: nat) \<and> v < (3 :: nat)"
    by simp
  have run: "RootedSubgraph_map ex_data ex_n_mask
     = Inr ([(0, 1), (1, 0), (2, 3), (3, 2), (3, 4), (4, 3), (5, 6), (6, 5)],
            [0, 1, 0, 1, 2, 1, 2], [0, 1, 0, 1, 2, 3, 2, 3],
            [0, 0, 1, 1, 1, 2, 2], [0, 0, 1, 1, 1, 1, 2, 2])"
    by code_simp
  let ?ei = "[(0, 1), (1, 0), (1, 2), (2, 1)] :: (nat \<times> nat) list"
  from RootedSubgraph_map_remap[OF a1 a2 a3 a4 a5]
  obtain sub n_id e_id n_sub_batch e_sub_batch where
    r: "RootedSubgraph_map ex_data ex_n_mask = Inr (sub, n_id, e_id, n_sub_batch, e_sub_batch)"
    and l: "length sub = length e_id"
    and z: "zip n_sub_batch n_id = nonzero ex_n_mask"
    and rn: "row_major (zip n_sub_batch n_id)"
    and re: "row_major (zip e_sub_batch e_id)"
    and per: "\<forall>t < length e_id.
          e_id ! t < length ?ei \<and> e_sub_batch ! t < 3
          \<and> ex_n_mask ! (e_sub_batch ! t) ! fst (?ei ! (e_id ! t))
          \<and> ex_n_mask ! (e_sub_batch ! t) ! snd (?ei ! (e_id ! t))
          \<and> fst (sub ! t) < length n_id \<and> snd (sub ! t) < length n_id
          \<and> n_id ! fst (sub ! t) = fst (?ei ! (e_id ! t))
          \<and> n_id ! snd (sub ! t) = snd (?ei ! (e_id ! t))
          \<and> n_sub_batch ! fst (sub ! t) = e_sub_batch ! t
          \<and> n_sub_batch ! snd (sub ! t) = e_sub_batch ! t"
    by (elim exE conjE) (rule that)
  have e: "e_id = [0, 1, 0, 1, 2, 3, 2, 3]" "e_sub_batch = [0, 0, 1, 1, 1, 1, 2, 2]"
    using r run by simp_all
  have "4 < length e_id" by (simp add: e)
  with per have p4: "n_id ! fst (sub ! 4) = fst (?ei ! (e_id ! 4))"
    "n_id ! snd (sub ! 4) = snd (?ei ! (e_id ! 4))"
    "n_sub_batch ! fst (sub ! 4) = e_sub_batch ! 4"
    by blast+
  have q: "n_id ! fst (sub ! 4) = 1" "n_id ! snd (sub ! 4) = 2"
    "n_sub_batch ! fst (sub ! 4) = 1" "e_sub_batch ! 4 = 1"
    using p4 by (simp_all add: e)
  show ?thesis
    by (rule conjI[OF run], rule exI[of _ sub], rule exI[of _ n_id], rule exI[of _ e_id],
        rule exI[of _ n_sub_batch], rule exI[of _ e_sub_batch])
       (intro conjI r l z rn re q)
qed

section \<open>Properties of RootedRWSubgraph.extract\<close>

lemma index_put_const:
  "index_put m ps (replicate (length ps) v) = Inr m' \<Longrightarrow> i < length m \<Longrightarrow> j < length (m ! i) \<Longrightarrow>
   m' ! i ! j = (if (i, j) \<in> set ps then v else m ! i ! j)"
proof (induction ps arbitrary: m)
  case Nil
  then show ?case by simp
next
  case (Cons p ps)
  obtain a b where p: "p = (a, b)" by (cases p)
  from Cons.prems(1) have ok: "a < length m" "b < length (m ! a)"
    and r: "index_put (m[a := (m ! a)[b := v]]) ps (replicate (length ps) v) = Inr m'"
    by (auto simp: p split: if_splits)
  let ?m1 = "m[a := (m ! a)[b := v]]"
  have i1: "i < length ?m1" using Cons.prems(2) by simp
  have j1: "j < length (?m1 ! i)" using Cons.prems(2,3) by (cases "i = a") auto
  have "m' ! i ! j = (if (i, j) \<in> set ps then v else ?m1 ! i ! j)"
    using Cons.IH[OF r i1 j1] .
  moreover have "?m1 ! i ! j = (if (i, j) = (a, b) then v else m ! i ! j)"
    using ok Cons.prems(2,3) by (cases "i = a"; cases "j = b") auto
  ultimately show ?case by (auto simp: p)
qed

lemma zip_tile:
  "length ws = length xs \<Longrightarrow> \<forall>w \<in> set ws. length w = n \<Longrightarrow>
   zip (tile_repeat xs n) (concat ws) = concat (map2 (\<lambda>x w. map (Pair x) w) xs ws)"
proof (induction ws xs rule: list_induct2)
  case Nil
  then show ?case by (simp add: tile_repeat_def)
next
  case (Cons w ws x xs)
  have "zip (replicate n x) w = map (Pair x) w"
    using Cons.prems by (simp add: zip_replicate1)
  then show ?case using Cons by (simp add: tile_repeat_def)
qed

lemma set_concat_map2:
  "length ws = length xs \<Longrightarrow>
   set (concat (map2 (\<lambda>x w. map (Pair x) w) xs ws))
   = {(b, v). \<exists>i < length xs. xs ! i = b \<and> v \<in> set (ws ! i)}"
proof (induction ws xs rule: list_induct2)
  case Nil
  then show ?case by simp
next
  case (Cons w ws x xs)
  have "{(b, v). \<exists>i < length (x # xs). (x # xs) ! i = b \<and> v \<in> set ((w # ws) ! i)}
        = {(b, v). b = x \<and> v \<in> set w} \<union> {(b, v). \<exists>i < length xs. xs ! i = b \<and> v \<in> set (ws ! i)}"
    by (auto simp: less_Suc_eq_0_disj)
  then show ?case using Cons by auto
qed

lemma length_tile: "length (tile_repeat xs n) = length xs * n"
  by (induction xs) (simp_all add: tile_repeat_def)

lemma length_concat_uniform: "\<forall>w \<in> set ws. length w = n \<Longrightarrow> length (concat ws) = length ws * n"
  by (induction ws) simp_all

lemma tile_nth: "b < length xs \<Longrightarrow> 0 < r \<Longrightarrow> b * r < length (tile_repeat xs r) \<and> tile_repeat xs r ! (b * r) = xs ! b"
proof -
  assume b: "b < length xs" and r: "0 < r"
  have "\<forall>w \<in> set (map (replicate r) xs). length w = r" by simp
  from concat_nth_uniform[OF this, of b 0] b r
  show ?thesis by (simp add: tile_repeat_def)
qed

lemma visited_mask_char:
  assumes lw: "length walk = N * repeat"
    and ws: "\<forall>w \<in> set walk. length w = walk_length + 1 \<and> (\<forall>v \<in> set w. v < N)"
  shows "\<exists>n_mask.
      index_put_scalar (replicate N (replicate N False))
        (tile_repeat (tile_repeat [0..<N] repeat) (walk_length + 1)) (concat walk) True
        = Inr n_mask
    \<and> length n_mask = N \<and> (\<forall>r \<in> set n_mask. length r = N)
    \<and> (\<forall>b < N. \<forall>v < N.
          n_mask ! b ! v \<longleftrightarrow>
          (\<exists>i < length walk. tile_repeat [0..<N] repeat ! i = b \<and> v \<in> set (walk ! i)))"
proof -
  let ?start = "tile_repeat [0..<N] repeat"
  let ?start2 = "tile_repeat ?start (walk_length + 1)"
  let ?zero = "replicate N (replicate N False)"
  have ls: "length ?start = length walk" using lw by (simp add: length_tile)
  have wl: "\<forall>w \<in> set walk. length w = walk_length + 1" using ws by simp
  have z: "zip ?start2 (concat walk) = concat (map2 (\<lambda>x w. map (Pair x) w) ?start walk)"
    using zip_tile[OF ls[symmetric] wl] .
  have le: "length ?start2 = length (concat walk)"
    using ls by (simp add: length_tile length_concat_uniform[OF wl])
  have bp: "broadcast_pairs ?start2 (concat walk) = Inr (zip ?start2 (concat walk))"
    using le by (simp add: broadcast_pairs_def)
  have sset: "set (zip ?start2 (concat walk))
              = {(b, v). \<exists>i < length ?start. ?start ! i = b \<and> v \<in> set (walk ! i)}"
    unfolding z using set_concat_map2[OF ls[symmetric]] .
  have sin: "\<And>i. i < length ?start \<Longrightarrow> ?start ! i < N"
  proof -
    fix i assume "i < length ?start"
    then have "?start ! i \<in> set ?start" by (rule nth_mem)
    then show "?start ! i < N" by (auto simp: tile_repeat_def)
  qed
  have rng: "\<forall>(i, j) \<in> set (zip ?start2 (concat walk)). i < length ?zero \<and> j < length (?zero ! i)"
  proof (intro ballI)
    fix p assume "p \<in> set (zip ?start2 (concat walk))"
    then obtain b v i where p: "p = (b, v)" and i: "i < length ?start" "?start ! i = b"
      "v \<in> set (walk ! i)"
      unfolding sset by auto
    have "walk ! i \<in> set walk" using i(1) ls by simp
    then have "v < N" using ws i(3) by blast
    moreover have "b < N" using sin[OF i(1)] i(2) by simp
    ultimately show "case p of (i, j) \<Rightarrow> i < length ?zero \<and> j < length (?zero ! i)"
      by (simp add: p)
  qed
  have "\<exists>m. index_put ?zero (zip ?start2 (concat walk))
              (replicate (length (zip ?start2 (concat walk))) True) = Inr m"
    by (rule index_put_defined) (use rng in auto)
  then obtain m where m: "index_put ?zero (zip ?start2 (concat walk))
              (replicate (length (zip ?start2 (concat walk))) True) = Inr m"
    by blast
  have run: "index_put_scalar ?zero ?start2 (concat walk) True = Inr m"
    using bp m by (simp add: index_put_scalar_def)
  have ml: "length m = N" and mr: "\<And>i. i < N \<Longrightarrow> length (m ! i) = N"
    using index_put_shape[OF m] by auto
  have mrows: "\<forall>r \<in> set m. length r = N"
    using ml mr by (auto simp: in_set_conv_nth)
  have entry: "m ! b ! v \<longleftrightarrow> (\<exists>i < length walk. ?start ! i = b \<and> v \<in> set (walk ! i))"
    if "b < N" "v < N" for b v
  proof -
    have ip: "m ! b ! v = (if (b, v) \<in> set (zip ?start2 (concat walk)) then True else ?zero ! b ! v)"
      by (rule index_put_const[OF m]) (use that in auto)
    have zf: "?zero ! b ! v = False" using that by simp
    have mem: "(b, v) \<in> set (zip ?start2 (concat walk))
               \<longleftrightarrow> (\<exists>i < length walk. ?start ! i = b \<and> v \<in> set (walk ! i))"
      unfolding sset ls by blast
    have "m ! b ! v \<longleftrightarrow> (b, v) \<in> set (zip ?start2 (concat walk))"
      unfolding ip zf by simp
    then show ?thesis using mem by blast
  qed
  show ?thesis
    by (rule exI[of _ m]) (intro conjI run ml mrows allI impI entry; simp)
qed

text \<open>
  C6. \<open>RootedRWSubgraph.extract\<close> asks for the start nodes with the keyword \<open>place\<close>,
  which \<open>paddle.arange\<close> does not have, before it calls \<open>random_walk\<close>. On the path of
  three nodes, with two walks of length 2 per node, the call raises \<open>TypeError\<close>; and for
  every graph, every outcome of \<open>random_walk\<close>, every walk length and every number of
  repetitions \<open>extract\<close> ends in an exception, so that no node mask is passed to \<open>map\<close>.
  (By \<open>visited_mask_char\<close> the assignment at the end of \<open>extract\<close>, given the start
  nodes and a walk tensor, would mark exactly the visited nodes.)
\<close>

theorem RootedRWSubgraph_extract_raises:
  "RootedRWSubgraph_extract ex_random_walk 2 2 ex_data = Inl TypeError
   \<and> (\<exists>e. RootedRWSubgraph_extract rw walk_length rep data = Inl e)"
proof
  have c: "call_with arange_keywords [''dtype'', ''place''] x = Inl TypeError"
    for x :: "error + nat list"
    by (simp add: call_with_def arange_keywords_def)
  show "RootedRWSubgraph_extract ex_random_walk 2 2 ex_data = Inl TypeError"
    by (simp add: RootedRWSubgraph_extract_def RootedRWSubgraph_n_mask_def ex_data_def c bnd_def)
  have "\<exists>e. RootedRWSubgraph_n_mask rw walk_length rep data = Inl e"
    by (auto simp: RootedRWSubgraph_n_mask_def c bnd_def split: option.splits)
  then show "\<exists>e. RootedRWSubgraph_extract rw walk_length rep data = Inl e"
    by (auto simp: RootedRWSubgraph_extract_def bnd_def)
qed

section \<open>Properties of RootedEgoNets.extract\<close>

lemma sq_nth: "sq N m \<Longrightarrow> i < N \<Longrightarrow> length (m ! i) = N"
  by (simp add: sq_def)

lemma sq_eye: "sq N (eye N)"
  by (auto simp: sq_def eye_def)

lemma eye_nth: "i < N \<Longrightarrow> j < N \<Longrightarrow> eye N ! i ! j = (if i = j then 1 else 0)"
  by (simp add: eye_def)

lemma adjacency:
  assumes "\<forall>(u, v) \<in> set ei. u < N \<and> v < N"
  shows "\<exists>A. to_paddle_csc_tensor ei (N, N) = Inr A \<and> sq N A
           \<and> (\<forall>r < N. \<forall>c < N. A ! r ! c = count_list ei (r, c))"
proof -
  have "list_all (\<lambda>(r, c). r < N \<and> c < N) ei" using assms by (simp add: list_all_iff)
  then have "to_paddle_csc_tensor ei (N, N)
             = Inr (map (\<lambda>r. map (\<lambda>c. count_list ei (r, c)) [0..<N]) [0..<N])"
    by (simp add: to_paddle_csc_tensor_def)
  moreover have "sq N (map (\<lambda>r. map (\<lambda>c. count_list ei (r, c)) [0..<N]) [0..<N])"
    by (auto simp: sq_def)
  ultimately show ?thesis by simp
qed

lemma mat_t_sq:
  assumes "sq N A"
  shows "sq N (mat_t A) \<and> (\<forall>i < N. \<forall>j < N. mat_t A ! i ! j = A ! j ! i)"
proof (cases A)
  case Nil
  then show ?thesis using assms by (simp add: mat_t_def sq_def)
next
  case (Cons r rs)
  then have lr: "length r = N" and la: "length A = N" using assms by (auto simp: sq_def)
  have "mat_t A = map (\<lambda>j. map (\<lambda>row. row ! j) A) [0..<N]"
    using Cons lr by (simp add: mat_t_def)
  then show ?thesis using la by (auto simp: sq_def)
qed

lemma map2_nth:
  "length xs = length ys \<Longrightarrow> map2 f xs ys = map (\<lambda>k. f (xs ! k) (ys ! k)) [0..<length xs]"
  by (rule nth_equalityI) auto

lemma sum_list_pos_iff: "0 < sum_list (xs :: nat list) \<longleftrightarrow> (\<exists>x \<in> set xs. 0 < x)"
  by (induction xs) auto

lemma ncols_sq: "sq N b \<Longrightarrow> 0 < N \<Longrightarrow> ncols b = N"
  by (cases b) (auto simp: ncols_def sq_def)

lemma matmul_sq:
  assumes a: "sq N a" and b: "sq N b"
  shows "\<exists>p. matmul a b = Inr p \<and> sq N p
           \<and> (\<forall>i < N. \<forall>j < N. p ! i ! j = sum_list (map (\<lambda>k. a ! i ! k * b ! k ! j) [0..<N]))"
proof (cases "N = 0")
  case True
  then have "a = []" using a by (simp add: sq_def)
  then show ?thesis using True by (simp add: matmul_def sq_def)
next
  case False
  then have nc: "ncols b = N" using ncols_sq[OF b] by simp
  have lb: "length b = N" using b by (simp add: sq_def)
  have la: "length a = N" using a by (simp add: sq_def)
  have all: "list_all (\<lambda>r. length r = length b) a"
    using a lb by (simp add: list_all_iff sq_def)
  let ?p = "map (\<lambda>r. map (\<lambda>j. sum_list (map2 (\<lambda>x brow. x * brow ! j) r b)) [0..<N]) a"
  have run: "matmul a b = Inr ?p" using all nc by (simp add: matmul_def)
  have sqp: "sq N ?p" using la by (auto simp: sq_def)
  have ent: "?p ! i ! j = sum_list (map (\<lambda>k. a ! i ! k * b ! k ! j) [0..<N])"
    if "i < N" "j < N" for i j
  proof -
    have "length (a ! i) = length b" using sq_nth[OF a that(1)] lb by simp
    then have "map2 (\<lambda>x brow. x * brow ! j) (a ! i) b
               = map (\<lambda>k. a ! i ! k * b ! k ! j) [0..<length (a ! i)]"
      by (rule map2_nth)
    then show ?thesis using that la sq_nth[OF a that(1)] by simp
  qed
  show ?thesis using run sqp ent by blast
qed

lemma mat_add_sq:
  assumes a: "sq N a" and b: "sq N b"
  shows "sq N (mat_add a b) \<and> (\<forall>i < N. \<forall>j < N. mat_add a b ! i ! j = a ! i ! j + b ! i ! j)"
proof -
  have la: "length a = N" and lb: "length b = N" using a b by (simp_all add: sq_def)
  have rows: "length (map2 (+) (a ! i) (b ! i)) = N" if "i < N" for i
    using sq_nth[OF a that] sq_nth[OF b that] by simp
  have "sq N (mat_add a b)"
    unfolding sq_def mat_add_def using la lb rows
    by (auto simp: in_set_conv_nth)
  moreover have "mat_add a b ! i ! j = a ! i ! j + b ! i ! j" if "i < N" "j < N" for i j
    using that la lb sq_nth[OF a that(1)] sq_nth[OF b that(1)] by (simp add: mat_add_def)
  ultimately show ?thesis by blast
qed

lemma walk_Suc: "has_walk ei (Suc n) a b \<longleftrightarrow> (\<exists>u. (u, b) \<in> set ei \<and> has_walk ei n a u)"
  by (auto simp: list_ex_iff)

lemma walk_front: "has_walk ei (Suc n) a b \<longleftrightarrow> (\<exists>u. (a, u) \<in> set ei \<and> has_walk ei n u b)"
proof (induction n arbitrary: b)
  case 0
  show ?case by (auto simp: list_ex_iff)
next
  case (Suc n)
  have "has_walk ei (Suc (Suc n)) a b \<longleftrightarrow> (\<exists>w. (w, b) \<in> set ei \<and> has_walk ei (Suc n) a w)"
    by (rule walk_Suc)
  also have "\<dots> \<longleftrightarrow> (\<exists>w. (w, b) \<in> set ei \<and> (\<exists>u. (a, u) \<in> set ei \<and> has_walk ei n u w))"
    using Suc.IH by simp
  also have "\<dots> \<longleftrightarrow> (\<exists>u. (a, u) \<in> set ei \<and> (\<exists>w. (w, b) \<in> set ei \<and> has_walk ei n u w))"
    by blast
  also have "\<dots> \<longleftrightarrow> (\<exists>u. (a, u) \<in> set ei \<and> has_walk ei (Suc n) u b)"
    using walk_Suc[of ei n _ b] by simp
  finally show ?case .
qed

lemma walk_sym:
  assumes "\<forall>(u, v) \<in> set ei. (v, u) \<in> set ei"
  shows "has_walk ei n a b \<longleftrightarrow> has_walk ei n b a"
proof (induction n arbitrary: a b)
  case 0
  show ?case by auto
next
  case (Suc n)
  have s: "(u, v) \<in> set ei \<longleftrightarrow> (v, u) \<in> set ei" for u v using assms by blast
  have "has_walk ei (Suc n) a b \<longleftrightarrow> (\<exists>u. (u, b) \<in> set ei \<and> has_walk ei n a u)"
    by (rule walk_Suc)
  also have "\<dots> \<longleftrightarrow> (\<exists>u. (b, u) \<in> set ei \<and> has_walk ei n u a)"
    using s Suc.IH by blast
  also have "\<dots> \<longleftrightarrow> has_walk ei (Suc n) b a"
    using walk_front[of ei n b a] by simp
  finally show ?case .
qed

lemma hop_step:
  assumes at: "sq N At" and m: "sq N M"
    and adj: "\<forall>b < N. \<forall>x < N. 0 < At ! b ! x \<longleftrightarrow> (x, b) \<in> set ei"
  shows "\<exists>P. matmul At M = Inr P \<and> sq N (mat_add M P)
           \<and> (\<forall>b < N. \<forall>v < N. 0 < mat_add M P ! b ! v \<longleftrightarrow>
                 (0 < M ! b ! v \<or> (\<exists>x < N. (x, b) \<in> set ei \<and> 0 < M ! x ! v)))"
proof -
  obtain P where p: "matmul At M = Inr P" and sp: "sq N P"
    and pe: "\<And>i j. i < N \<Longrightarrow> j < N \<Longrightarrow>
               P ! i ! j = sum_list (map (\<lambda>k. At ! i ! k * M ! k ! j) [0..<N])"
    using matmul_sq[OF at m] by blast
  note ad = mat_add_sq[OF m sp]
  have "0 < mat_add M P ! b ! v \<longleftrightarrow>
          (0 < M ! b ! v \<or> (\<exists>x < N. (x, b) \<in> set ei \<and> 0 < M ! x ! v))"
    if b: "b < N" and v: "v < N" for b v
  proof -
    have "0 < P ! b ! v \<longleftrightarrow> (\<exists>x < N. 0 < At ! b ! x * M ! x ! v)"
      unfolding pe[OF b v] sum_list_pos_iff by auto
    also have "\<dots> \<longleftrightarrow> (\<exists>x < N. (x, b) \<in> set ei \<and> 0 < M ! x ! v)"
      using adj b by auto
    finally have "0 < P ! b ! v \<longleftrightarrow> (\<exists>x < N. (x, b) \<in> set ei \<and> 0 < M ! x ! v)" .
    moreover have "mat_add M P ! b ! v = M ! b ! v + P ! b ! v" using ad b v by blast
    ultimately show ?thesis by auto
  qed
  then show ?thesis using p ad by blast
qed

lemma hops_char:
  assumes at: "sq N At"
    and adj: "\<forall>b < N. \<forall>x < N. 0 < At ! b ! x \<longleftrightarrow> (x, b) \<in> set ei"
    and rng: "\<forall>(u, v) \<in> set ei. u < N \<and> v < N"
  shows "sq N M \<Longrightarrow>
         \<exists>M'. hops k At M = Inr M' \<and> sq N M'
           \<and> (\<forall>b < N. \<forall>v < N. 0 < M' ! b ! v \<longleftrightarrow>
                 (\<exists>j \<le> k. \<exists>u < N. has_walk ei j u b \<and> 0 < M ! u ! v))"
proof (induction k arbitrary: M)
  case 0
  then show ?case by auto
next
  case (Suc k)
  obtain P where p: "matmul At M = Inr P" and s1: "sq N (mat_add M P)"
    and e1: "\<And>b v. b < N \<Longrightarrow> v < N \<Longrightarrow> 0 < mat_add M P ! b ! v \<longleftrightarrow>
                 (0 < M ! b ! v \<or> (\<exists>x < N. (x, b) \<in> set ei \<and> 0 < M ! x ! v))"
    using hop_step[OF at Suc.prems adj] by blast
  obtain M' where h: "hops k At (mat_add M P) = Inr M'" and s': "sq N M'"
    and e': "\<And>b v. b < N \<Longrightarrow> v < N \<Longrightarrow> 0 < M' ! b ! v \<longleftrightarrow>
                 (\<exists>j \<le> k. \<exists>u < N. has_walk ei j u b \<and> 0 < mat_add M P ! u ! v)"
    using Suc.IH[OF s1] by blast
  have run: "hops (Suc k) At M = Inr M'" using p h by simp
  have "0 < M' ! b ! v \<longleftrightarrow> (\<exists>j \<le> Suc k. \<exists>u < N. has_walk ei j u b \<and> 0 < M ! u ! v)"
    if b: "b < N" and v: "v < N" for b v
  proof
    assume "0 < M' ! b ! v"
    then obtain j u where j: "j \<le> k" and u: "u < N" and w: "has_walk ei j u b"
      and pos: "0 < mat_add M P ! u ! v"
      using e'[OF b v] by blast
    have "0 < M ! u ! v \<or> (\<exists>x < N. (x, u) \<in> set ei \<and> 0 < M ! x ! v)"
      using pos e1[OF u v] by simp
    then consider "0 < M ! u ! v"
      | x where "x < N" "(x, u) \<in> set ei" "0 < M ! x ! v" by auto
    then show "\<exists>j \<le> Suc k. \<exists>u < N. has_walk ei j u b \<and> 0 < M ! u ! v"
    proof cases
      case 1
      then show ?thesis using j u w by (meson le_SucI)
    next
      case 2
      then have "has_walk ei (Suc j) x b" using w walk_front[of ei j x b] by blast
      then show ?thesis using 2 j by (meson Suc_le_mono)
    qed
  next
    assume "\<exists>j \<le> Suc k. \<exists>u < N. has_walk ei j u b \<and> 0 < M ! u ! v"
    then obtain j u where j: "j \<le> Suc k" and u: "u < N" and w: "has_walk ei j u b"
      and pos: "0 < M ! u ! v" by blast
    show "0 < M' ! b ! v"
    proof (cases "j \<le> k")
      case True
      have "0 < mat_add M P ! u ! v" using e1[OF u v] pos by blast
      then show ?thesis using e'[OF b v] True u w by blast
    next
      case False
      then have jk: "j = Suc k" using j by simp
      then obtain x where x: "(u, x) \<in> set ei" "has_walk ei k x b"
        using w walk_front[of ei k u b] by blast
      have xn: "x < N" using rng x(1) by blast
      have "0 < mat_add M P ! x ! v" using e1[OF xn v] x(1) u pos by blast
      then show ?thesis using e'[OF b v] xn x(2) by blast
    qed
  qed
  then show ?case using run s' by blast
qed

lemma hops_eye_char:
  assumes rng: "\<forall>(u, v) \<in> set ei. u < N \<and> v < N"
  shows "\<exists>A M'. to_paddle_csc_tensor ei (N, N) = Inr A \<and> hops k (mat_t A) (eye N) = Inr M'
           \<and> sq N M'
           \<and> (\<forall>b < N. \<forall>v < N. 0 < M' ! b ! v \<longleftrightarrow> (\<exists>j \<le> k. has_walk ei j v b))"
proof -
  obtain A where a: "to_paddle_csc_tensor ei (N, N) = Inr A" and sa: "sq N A"
    and ae: "\<And>r c. r < N \<Longrightarrow> c < N \<Longrightarrow> A ! r ! c = count_list ei (r, c)"
    using adjacency[OF rng] by blast
  note t = mat_t_sq[OF sa]
  have st: "sq N (mat_t A)" using t by blast
  have adj: "\<forall>b < N. \<forall>x < N. 0 < mat_t A ! b ! x \<longleftrightarrow> (x, b) \<in> set ei"
  proof (intro allI impI)
    fix b x assume b: "b < N" and x: "x < N"
    have "mat_t A ! b ! x = count_list ei (x, b)" using t ae b x by simp
    then show "0 < mat_t A ! b ! x \<longleftrightarrow> (x, b) \<in> set ei"
      using count_list_0_iff[of ei "(x, b)"] by auto
  qed
  obtain M' where h: "hops k (mat_t A) (eye N) = Inr M'" and s': "sq N M'"
    and e': "\<And>b v. b < N \<Longrightarrow> v < N \<Longrightarrow> 0 < M' ! b ! v \<longleftrightarrow>
                 (\<exists>j \<le> k. \<exists>u < N. has_walk ei j u b \<and> 0 < eye N ! u ! v)"
    using hops_char[OF st adj rng sq_eye, of k] by blast
  have "0 < M' ! b ! v \<longleftrightarrow> (\<exists>j \<le> k. has_walk ei j v b)" if b: "b < N" and v: "v < N" for b v
  proof -
    have "0 < M' ! b ! v \<longleftrightarrow> (\<exists>j \<le> k. \<exists>u < N. has_walk ei j u b \<and> 0 < eye N ! u ! v)"
      using e'[OF b v] .
    also have "\<dots> \<longleftrightarrow> (\<exists>j \<le> k. has_walk ei j v b)"
    proof
      assume "\<exists>j \<le> k. \<exists>u < N. has_walk ei j u b \<and> 0 < eye N ! u ! v"
      then obtain j u where j: "j \<le> k" "u < N" "has_walk ei j u b" "0 < eye N ! u ! v" by blast
      then have "u = v" using v by (simp add: eye_nth split: if_splits)
      then show "\<exists>j \<le> k. has_walk ei j v b" using j by blast
    next
      assume "\<exists>j \<le> k. has_walk ei j v b"
      then obtain j where j: "j \<le> k" "has_walk ei j v b" by blast
      have "0 < eye N ! v ! v" using v by (simp add: eye_nth)
      then show "\<exists>j \<le> k. \<exists>u < N. has_walk ei j u b \<and> 0 < eye N ! u ! v"
        using j v by blast
    qed
    finally show ?thesis .
  qed
  then show ?thesis using a h s' by blast
qed

text \<open>
  C4. \<open>RootedEgoNets.extract\<close> asks for the identity matrix with the keyword \<open>place\<close>,
  which \<open>paddle.eye\<close> does not have. On the path of three nodes with one hop, a graph
  with a symmetric edge index, the call raises \<open>TypeError\<close>; and for every graph and every
  number of hops \<open>extract\<close> ends in an exception, so that no node mask is computed and
  no subgraph is returned. (By \<open>hops_eye_char\<close> the loop of \<open>extract\<close>, started from the
  identity matrix, would mark exactly the nodes within \<open>k\<close> hops.)
\<close>

theorem RootedEgoNets_extract_raises:
  "RootedEgoNets_extract 1 ex_data = Inl TypeError
   \<and> (\<exists>e. RootedEgoNets_extract num_hops data = Inl e)"
proof
  show "RootedEgoNets_extract 1 ex_data = Inl TypeError"
    by (simp add: RootedEgoNets_extract_def RootedEgoNets_n_mask_def ex_data_def
        to_paddle_csc_tensor_def call_with_def eye_keywords_def bnd_def Let_def)
next
  have "call_with eye_keywords [''dtype'', ''place''] x = Inl TypeError" for x :: "error + nat list list"
    by (simp add: call_with_def eye_keywords_def)
  then have "\<exists>e. RootedEgoNets_n_mask num_hops data = Inl e"
    by (auto simp: RootedEgoNets_n_mask_def bnd_def Let_def split: option.splits sum.splits)
  then show "\<exists>e. RootedEgoNets_extract num_hops data = Inl e"
    by (auto simp: RootedEgoNets_extract_def bnd_def)
qed

section \<open>Properties of to_csc\<close>

lemma index_sort_perm:
  "index_sort xs = (ys, perm) \<Longrightarrow>
   mset perm = mset [0..<length xs] \<and> ys = map (\<lambda>i. xs ! i) perm \<and> sorted ys"
  by (auto simp: index_sort_def Let_def)

lemma perm_in_range: "mset perm = mset [0..<n] \<Longrightarrow> \<forall>i \<in> set perm. i < n"
  by (metis atLeastLessThan_iff set_mset_mset set_upt)

lemma mset_map_perm:
  assumes "mset perm = mset [0..<length xs]"
  shows "mset (map (\<lambda>i. xs ! i) perm) = mset xs"
proof -
  have "mset (map (\<lambda>i. xs ! i) perm) = image_mset (\<lambda>i. xs ! i) (mset perm)" by simp
  also have "\<dots> = image_mset (\<lambda>i. xs ! i) (mset [0..<length xs])" using assms by simp
  also have "\<dots> = mset (map (\<lambda>i. xs ! i) [0..<length xs])" by simp
  also have "\<dots> = mset xs" by (simp add: map_nth)
  finally show ?thesis .
qed

lemma sorted_filter_less_prefix:
  "sorted (map f xs) \<Longrightarrow>
   take (length (filter (\<lambda>x. f x < j) xs)) xs = filter (\<lambda>x. f x < (j :: nat)) xs
   \<and> drop (length (filter (\<lambda>x. f x < j) xs)) xs = filter (\<lambda>x. \<not> f x < j) xs"
proof (induction xs)
  case Nil
  then show ?case by simp
next
  case (Cons x xs)
  then have s: "sorted (map f xs)" and le: "\<forall>y \<in> set xs. f x \<le> f y" by auto
  show ?case
  proof (cases "f x < j")
    case True
    then show ?thesis using Cons.IH[OF s] by simp
  next
    case False
    then have "\<forall>y \<in> set xs. \<not> f y < j" using le by fastforce
    then have "filter (\<lambda>y. f y < j) xs = []" "filter (\<lambda>y. \<not> f y < j) xs = xs"
      by (simp_all add: filter_empty_conv)
    then show ?thesis using False by simp
  qed
qed

lemma sorted_slice:
  assumes "sorted (map f xs)"
  shows "take (length (filter (\<lambda>x. f x < Suc j) xs) - length (filter (\<lambda>x. f x < j) xs))
              (drop (length (filter (\<lambda>x. f x < j) xs)) xs)
         = filter (\<lambda>x. f x = j) xs"
proof -
  let ?ys = "filter (\<lambda>x. \<not> f x < j) xs"
  have d: "drop (length (filter (\<lambda>x. f x < j) xs)) xs = ?ys"
    using sorted_filter_less_prefix[OF assms, of j] by simp
  have sy: "sorted (map f ?ys)" using assms by (simp add: sorted_filter)
  have fy: "filter (\<lambda>x. f x < Suc j) ?ys = filter (\<lambda>x. f x = j) xs"
    by (simp add: less_Suc_eq conj_commute cong: conj_cong)
  have split: "filter (\<lambda>x. f x < Suc j) xs = filter (\<lambda>x. f x < j) xs @ filter (\<lambda>x. f x = j) xs"
  proof -
    have "take (length (filter (\<lambda>x. f x < j) xs)) xs = filter (\<lambda>x. f x < j) xs"
      using sorted_filter_less_prefix[OF assms, of j] by simp
    then have "xs = filter (\<lambda>x. f x < j) xs @ ?ys"
      using d by (metis append_take_drop_id)
    then have "filter (\<lambda>x. f x < Suc j) xs
               = filter (\<lambda>x. f x < Suc j) (filter (\<lambda>x. f x < j) xs)
                 @ filter (\<lambda>x. f x < Suc j) ?ys"
      by (metis filter_append)
    moreover have "filter (\<lambda>x. f x < Suc j) (filter (\<lambda>x. f x < j) xs) = filter (\<lambda>x. f x < j) xs"
      by (simp add: less_Suc_eq conj_commute cong: conj_cong)
    moreover have "filter (\<lambda>x. f x < Suc j) ?ys = filter (\<lambda>x. f x = j) xs"
      by (rule fy)
    ultimately show ?thesis by simp
  qed
  have cnt: "length (filter (\<lambda>x. f x < Suc j) xs) - length (filter (\<lambda>x. f x < j) xs)
             = length (filter (\<lambda>x. f x < Suc j) ?ys)"
  proof -
    have "filter (\<lambda>x. f x < Suc j) ?ys = filter (\<lambda>x. f x = j) xs"
      by (rule fy)
    then show ?thesis using split by simp
  qed
  have "take (length (filter (\<lambda>x. f x < Suc j) ?ys)) ?ys = filter (\<lambda>x. f x < Suc j) ?ys"
    using sorted_filter_less_prefix[OF sy, of "Suc j"] by simp
  moreover have "filter (\<lambda>x. f x < Suc j) ?ys = filter (\<lambda>x. f x = j) xs"
    by (rule fy)
  ultimately show ?thesis unfolding d cnt by simp
qed

lemma length_filter_mono:
  "(\<And>x. P x \<Longrightarrow> Q x) \<Longrightarrow> length (filter P xs) \<le> length (filter Q xs)"
  by (induction xs) auto

lemma index2ptr_props:
  assumes "\<forall>c \<in> set cs. c < N"
  shows "length (index2ptr cs (Some N)) = N + 1"
    and "sorted (index2ptr cs (Some N))"
    and "index2ptr cs (Some N) ! 0 = 0"
    and "last (index2ptr cs (Some N)) = length cs"
    and "\<And>j. j \<le> N \<Longrightarrow> index2ptr cs (Some N) ! j = length (filter (\<lambda>c. c < j) cs)"
proof -
  let ?g = "\<lambda>j. length (filter (\<lambda>c. c < j) cs)"
  have eq: "index2ptr cs (Some N) = map ?g [0..<N + 1]" by (simp add: index2ptr_def)
  show len: "length (index2ptr cs (Some N)) = N + 1" by (simp add: eq)
  show nth: "index2ptr cs (Some N) ! j = ?g j" if "j \<le> N" for j
    unfolding eq using that by (simp add: nth_append del: upt_Suc)
  show "sorted (index2ptr cs (Some N))"
  proof (subst sorted_iff_nth_mono, intro allI impI)
    fix i j assume ij: "i \<le> j" and j: "j < length (index2ptr cs (Some N))"
    then have "j \<le> N" "i \<le> N" using len by auto
    then have "index2ptr cs (Some N) ! i = ?g i" "index2ptr cs (Some N) ! j = ?g j"
      using nth by auto
    moreover have "?g i \<le> ?g j" by (rule length_filter_mono) (use ij in auto)
    ultimately show "index2ptr cs (Some N) ! i \<le> index2ptr cs (Some N) ! j" by simp
  qed
  show "index2ptr cs (Some N) ! 0 = 0" using nth[of 0] by simp
  have ne: "index2ptr cs (Some N) \<noteq> []" using len by auto
  have "last (index2ptr cs (Some N)) = index2ptr cs (Some N) ! N"
    using last_conv_nth[OF ne] len by simp
  also have "\<dots> = ?g N" using nth[of N] by simp
  also have "\<dots> = length cs" using assms by simp
  finally show "last (index2ptr cs (Some N)) = length cs" .
qed

text \<open>
  C2 (amended). For a \<open>Data\<close> object without \<open>adj\<close> and \<open>adj_t\<close> attribute whose
  edge index has \<open>E\<close> columns with every destination below the number \<open>N\<close> of nodes,
  \<open>to_csc\<close> called with \<open>is_sorted = False\<close> and without times returns
  \<open>(colptr, row, perm)\<close> where \<open>perm\<close> is a permutation of \<open>0 .. E - 1\<close> along which the
  destinations are non-decreasing, \<open>row\<close> is the sources reindexed by \<open>perm\<close>, and
  \<open>colptr\<close> is a non-decreasing array of length \<open>N + 1\<close> from 0 to \<open>E\<close> such that, for
  every destination \<open>j\<close>, the entries of \<open>row\<close> from \<open>colptr[j]\<close> up to \<open>colptr[j + 1]\<close>
  are, as a multiset, the sources of the edges into \<open>j\<close>.
\<close>

theorem to_csc_edge_list:
  assumes a1: "adj_attr data = None" and a2: "adj_t_attr data = None"
    and ei: "edge_index data = Some ei" and nn: "num_nodes data = Some N"
    and rng: "\<forall>(r, c) \<in> set ei. c < N"
  shows "\<exists>colptr row perm.
     to_csc csc csr data False None None = Inr (colptr, row, Some perm)
     \<and> mset perm = mset [0..<length ei]
     \<and> sorted (map (\<lambda>i. snd (ei ! i)) perm)
     \<and> row = map (\<lambda>i. fst (ei ! i)) perm
     \<and> length colptr = N + 1 \<and> sorted colptr \<and> colptr ! 0 = 0 \<and> last colptr = length ei
     \<and> (\<forall>j < N. mset (take (colptr ! (j + 1) - colptr ! j) (drop (colptr ! j) row))
                  = mset (map fst (filter (\<lambda>(r, c). c = j) ei)))"
proof -
  let ?row = "map fst ei" and ?col = "map snd ei"
  obtain col' perm where isrt: "index_sort ?col = (col', perm)" by (cases "index_sort ?col")
  note isp = index_sort_perm[OF isrt]
  have mp: "mset perm = mset [0..<length ei]" using isp by simp
  have c': "col' = map (\<lambda>i. ?col ! i) perm" using isp by blast
  have sc: "sorted col'" using isp by blast
  have pr: "\<forall>i \<in> set perm. i < length ei" using perm_in_range[OF mp] .
  let ?es = "map (\<lambda>i. ei ! i) perm"
  let ?row' = "map (\<lambda>i. fst (ei ! i)) perm"
  have cs: "col' = map snd ?es" unfolding c' using pr by simp
  have cs2: "col' = map (\<lambda>i. snd (ei ! i)) perm" unfolding c' using pr by simp
  have rs: "?row' = map fst ?es" by simp
  have g: "gather ?row perm = Inr (map (\<lambda>i. ?row ! i) perm)"
    by (rule gather_Inr) (use pr in simp)
  have gr: "map (\<lambda>i. ?row ! i) perm = ?row'" using pr by simp
  have sort: "sort_csc ?row ?col None None = Inr (?row', col', perm)"
    using g gr by (simp add: sort_csc_def isrt)
  let ?ptr = "index2ptr col' (Some N)"
  have run: "to_csc csc csr data False None None = Inr (?ptr, ?row', Some perm)"
    using sort by (simp add: to_csc_def a1 a2 ei nn Let_def)
  have mes: "mset ?es = mset ei" using mset_map_perm[OF mp] .
  have cr: "\<forall>c \<in> set col'. c < N"
  proof
    fix c assume "c \<in> set col'"
    then obtain i where i: "i \<in> set perm" "c = snd (ei ! i)" unfolding cs2 by auto
    then have "ei ! i \<in> set ei" using pr by simp
    then have "snd (ei ! i) < N" using rng by (auto simp: case_prod_unfold)
    then show "c < N" using i(2) by simp
  qed
  note ip = index2ptr_props[OF cr]
  have lc: "length col' = length ei" using mp cs by (metis length_map size_mset diff_zero length_upt)
  have slice: "mset (take (?ptr ! (j + 1) - ?ptr ! j) (drop (?ptr ! j) ?row'))
               = mset (map fst (filter (\<lambda>(r, c). c = j) ei))" if j: "j < N" for j
  proof -
    have p0: "?ptr ! j = length (filter (\<lambda>e. snd e < j) ?es)"
      using ip(5)[of j] j unfolding cs by (simp add: filter_map comp_def)
    have p1: "?ptr ! (j + 1) = length (filter (\<lambda>e. snd e < Suc j) ?es)"
      using ip(5)[of "Suc j"] j unfolding cs by (simp add: filter_map comp_def)
    have se: "sorted (map snd ?es)" using sc cs by simp
    have "take (?ptr ! (j + 1) - ?ptr ! j) (drop (?ptr ! j) ?row')
          = map fst (take (?ptr ! (j + 1) - ?ptr ! j) (drop (?ptr ! j) ?es))"
      unfolding rs by (simp add: take_map drop_map)
    also have "\<dots> = map fst (filter (\<lambda>e. snd e = j) ?es)"
      unfolding p0 p1 using sorted_slice[OF se, of j] by simp
    finally have "mset (take (?ptr ! (j + 1) - ?ptr ! j) (drop (?ptr ! j) ?row'))
                  = image_mset fst (filter_mset (\<lambda>e. snd e = j) (mset ?es))"
      by simp
    also have "\<dots> = image_mset fst (filter_mset (\<lambda>e. snd e = j) (mset ei))"
      unfolding mes ..
    also have "\<dots> = mset (map fst (filter (\<lambda>(r, c). c = j) ei))"
      by (simp add: case_prod_unfold)
    finally show ?thesis .
  qed
  have sp: "sorted (map (\<lambda>i. snd (ei ! i)) perm)" using sc cs2 by simp
  have l2: "last ?ptr = length ei" using ip(4) lc by simp
  show ?thesis
    by (rule exI[of _ ?ptr], rule exI[of _ ?row'], rule exI[of _ perm])
       (intro conjI allI impI run mp sp refl ip(1) ip(2) ip(3) l2 slice; assumption)
qed

theorem to_csc_edge_list_witness:
  "to_csc id id ex_edge_list False None None
     = Inr ([0, 1, 2, 4], [1, 0, 0, 2], Some [1, 3, 0, 2])
   \<and> mset [1, 3, 0, 2] = mset [0..<4]
   \<and> sorted (map (\<lambda>i. snd (([(0, 2), (1, 0), (2, 2), (0, 1)] :: (nat \<times> nat) list) ! i)) [1, 3, 0, 2])
   \<and> last [0, 1, 2, 4 :: nat] = 4"
proof -
  let ?ei = "[(0, 2), (1, 0), (2, 2), (0, 1)] :: (nat \<times> nat) list"
  have a1: "adj_attr ex_edge_list = None" and a2: "adj_t_attr ex_edge_list = None"
    and a3: "edge_index ex_edge_list = Some ?ei" and a4: "num_nodes ex_edge_list = Some 3"
    by (simp_all add: ex_edge_list_def)
  have a5: "\<forall>(r, c) \<in> set ?ei. c < 3" by simp
  have run: "to_csc id id ex_edge_list False None None
     = Inr ([0, 1, 2, 4], [1, 0, 0, 2], Some [1, 3, 0, 2])"
    by code_simp
  from to_csc_edge_list[where data = ex_edge_list and ei = ?ei and N = 3 and csc = id and csr = id,
      OF a1 a2 a3 a4 a5]
  obtain colptr row perm where
    r: "to_csc id id ex_edge_list False None None = Inr (colptr, row, Some perm)"
    and p: "mset perm = mset [0..<length ?ei]"
    and s: "sorted (map (\<lambda>i. snd (?ei ! i)) perm)"
    and l: "last colptr = length ?ei"
    by (elim exE conjE) (rule that)
  have pe: "perm = [1, 3, 0, 2]" and ce: "colptr = [0, 1, 2, 4]" using r run by simp_all
  have le: "length ?ei = 4" by simp
  show ?thesis
    by (intro conjI run p[unfolded pe le] s[unfolded pe] l[unfolded ce le])
qed

text \<open>
  The claim as first stated fails for a \<open>Data\<close> object that has an edge index and also
  an \<open>adj_t\<close> attribute, where the function takes the arrays of the sparse matrix and
  returns no permutation; and for an edge whose destination is not below the number
  of nodes, where the pointer array does not end at the number of edges.
\<close>

theorem to_csc_edge_list_counterexample:
  "edge_index ex_with_adj_t = Some [(0, 2), (1, 0), (2, 2), (0, 1)]
   \<and> to_csc id id ex_with_adj_t False None None = Inr ([0, 1, 2, 4], [1, 0, 0, 2], None)
   \<and> edge_index ex_out_of_range = Some [(0, 5)] \<and> num_nodes ex_out_of_range = Some 1
   \<and> to_csc id id ex_out_of_range False None None = Inr ([0, 0], [0], Some [0])"
  by (simp add: ex_with_adj_t_def ex_out_of_range_def to_csc_def sort_csc_def index_sort_def
      index2ptr_def gather_def Let_def)

end
